theory Spec2Isabelle
  imports Main "HOL-Library.Word" "HOL-Library.Multiset"
begin

unbundle bit_operations_syntax

section \<open>Data model of the DRAM controller (dram.cc)\<close>

text \<open>
  The controller of \<^verbatim>\<open>dram.cc\<close> is embedded as functions on an explicit state.
  \<^item> \<^verbatim>\<open>Addr\<close> and \<^verbatim>\<open>Counter\<close> are unsigned 64-bit integers: \<open>64 word\<close>;
    \<^verbatim>\<open>ULLONG_MAX\<close> is the word \<open>- 1\<close>.
  \<^item> C \<^verbatim>\<open>int\<close> values whose arithmetic stays far from the 32-bit limits
    (sizes, counters, row/bank/column ids once decoded) are \<open>int\<close>; the one narrowing
    conversion that the code performs on an address (\<^verbatim>\<open>int rid = addr\<close>) is written out.
  \<^item> \<^verbatim>\<open>drb_entry_s*\<close> and \<^verbatim>\<open>mem_req_s*\<close> are addresses (\<open>nat\<close>) into two
    stores held in the state, because lists, the current slot and the free list share
    the same entry objects; a possibly-NULL pointer is an \<open>option\<close>.
  \<^item> The per-bank and per-channel C arrays are index-to-value stores.
  \<^item> \<^verbatim>\<open>ASSERT\<close> failures, NULL dereferences and division by zero are values of
    type \<open>abort\<close>; a function that can fail returns \<open>abort + 'a\<close>.
  \<^item> Statistics macros (\<^verbatim>\<open>STAT_EVENT\<close>), the pure accumulators \<^verbatim>\<open>m_band\<close>,
    \<^verbatim>\<open>m_avg_latency\<close> and \<^verbatim>\<open>DEBUG\<close> printing never influence control flow and
    are left out.
\<close>

type_synonym Addr = "64 word"
type_synonym Counter = "64 word"

definition ULLONG_MAX :: Counter where
  "ULLONG_MAX = - 1"

datatype Mem_Req_Type =
    MRT_IFETCH | MRT_DFETCH | MRT_DSTORE | MRT_IPRF | MRT_DPRF | MRT_WB
  | MRT_SW_DPRF | MRT_SW_DPRF_NTA | MRT_SW_DPRF_T0 | MRT_SW_DPRF_T1 | MRT_SW_DPRF_T2

text \<open>The life-cycle tags that dram.cc writes; \<open>MEM_UPSTREAM\<close> stands for every tag
  a request may carry before it reaches the controller.\<close>

datatype Mem_State = MEM_UPSTREAM | MEM_DRAM_START | MEM_DRAM_CMD | MEM_DRAM_DATA | MEM_DRAM_DONE

datatype Msg_Type = NOC_NONE | NOC_FILL

datatype DRAM_STATE = DRAM_INIT | DRAM_CMD | DRAM_CMD_WAIT | DRAM_DATA | DRAM_DATA_WAIT

text \<open>\<^verbatim>\<open>mem_req_s\<close> is declared outside dram.cc; these are the members dram.cc touches.\<close>

record mem_req_s =
  rq_id :: int
  rq_addr :: Addr
  rq_size :: int
  rq_type :: Mem_Req_Type
  rq_state :: Mem_State
  rq_core_id :: int
  rq_thread_id :: int
  rq_appl_id :: int
  rq_ptx :: bool
  rq_msg_type :: Msg_Type
  rq_msg_src :: int
  rq_msg_dst :: int
  rq_cache_id_L3 :: int

record drb_entry_s =
  m_id :: int
  m_state :: DRAM_STATE
  m_addr :: Addr
  m_bid :: int
  m_rid :: int
  m_cid :: int
  m_core_id :: int
  m_thread_id :: int
  m_appl_id :: int
  m_read :: bool
  m_req :: "nat option"
  m_priority :: int
  m_size :: int
  m_timestamp :: Counter
  m_scheduled :: Counter

datatype Policy = FCFS | FRFCFS

text \<open>One line of the diagnostic dump of \<^verbatim>\<open>print_req\<close>, per bank.\<close>

record bank_line =
  bl_clist :: int
  bl_scheduled :: Counter
  bl_size :: int
  bl_state :: "DRAM_STATE option"
  bl_bank_ready :: Counter
  bl_data_ready :: Counter
  bl_data_avail :: Counter
  bl_time :: Counter

record dump =
  dump_cycle :: Counter
  dump_total_req :: int
  dump_dbus :: "Counter list"
  dump_banks :: "bank_line list"

datatype abort = ASSERT_failed | NULL_deref | Empty_list_access | Div_by_zero | Starvation dump

text \<open>
  The controller object together with the parts of its environment that it reads or
  writes: the simulation clock and knobs of \<^verbatim>\<open>m_simBase\<close>, the request pool
  (\<open>pool_freed\<close> records \<^verbatim>\<open>free_req\<close> calls), the NoC (\<open>noc_oracle k\<close> is the answer
  of the network to the \<open>k\<close>-th submission, \<open>noc_sent\<close> the accepted fills) and, for
  the IRIS build, the terminal's receive queue.  The latencies and the two DRAM-to-host
  cycle conversions are computed by the constructor in floating point; they are taken
  as given values.
\<close>

record dram_controller_c =
  m_num_bank :: nat
  m_num_channel :: nat
  m_num_bank_per_channel :: nat
  m_bus_width :: int
  m_buffer :: "nat \<Rightarrow> nat list"
  m_buffer_free_list :: "nat \<Rightarrow> nat list"
  m_current_list :: "nat \<Rightarrow> nat option"
  m_current_rid :: "nat \<Rightarrow> int"
  m_data_ready :: "nat \<Rightarrow> Counter"
  m_data_avail :: "nat \<Rightarrow> Counter"
  m_bank_ready :: "nat \<Rightarrow> Counter"
  m_bank_timestamp :: "nat \<Rightarrow> Counter"
  m_byte_avail :: "nat \<Rightarrow> int"
  m_dbus_ready :: "nat \<Rightarrow> Counter"
  m_cid_mask :: Addr
  m_bid_shift :: nat
  m_bid_mask :: Addr
  m_rid_shift :: nat
  m_bid_xor_shift :: nat
  m_precharge_latency_cpu :: int
  m_activate_latency_cpu :: int
  m_column_latency_cpu :: int
  m_precharge_latency_gpu :: int
  m_activate_latency_gpu :: int
  m_column_latency_gpu :: int
  dram_cycle_cpu :: "int \<Rightarrow> int"
  dram_cycle_gpu :: "int \<Rightarrow> int"
  m_total_req :: int
  m_num_completed_in_last_cycle :: int
  m_starvation_cycle :: int
  m_noc_id :: int
  m_policy :: Policy
  m_unique_id :: int
  drb_heap :: "nat \<Rightarrow> drb_entry_s"
  req_heap :: "nat \<Rightarrow> mem_req_s"
  m_simulation_cycle :: Counter
  KNOB_DRAM_BANK_XOR_INDEX :: bool
  KNOB_DRAM_MERGE_REQUESTS :: bool
  KNOB_DRAM_BUFFER_SIZE :: nat
  IRIS :: bool
  terminal_node_id :: int
  dst_router_id :: "int \<Rightarrow> int"
  receive_queue :: "nat list"
  pool_freed :: "nat list"
  noc_oracle :: "nat \<Rightarrow> bool"
  noc_calls :: nat
  noc_sent :: "nat list"

text \<open>Sequencing of fallible steps.\<close>

definition seq :: "abort + 'a \<Rightarrow> ('a \<Rightarrow> abort + 'b) \<Rightarrow> abort + 'b" where
  "seq m f = (case m of Inl e \<Rightarrow> Inl e | Inr x \<Rightarrow> f x)"

text \<open>A \<^verbatim>\<open>for\<close> loop over indices whose body may abort.\<close>

fun for_each :: "nat list \<Rightarrow> (nat \<Rightarrow> 's \<Rightarrow> abort + 's) \<Rightarrow> 's \<Rightarrow> abort + 's" where
  "for_each [] body s = Inr s"
| "for_each (i # is) body s = seq (body i s) (for_each is body)"

text \<open>C integer division and remainder truncate towards zero.\<close>

definition c_div :: "int \<Rightarrow> int \<Rightarrow> int" where
  "c_div a b = sgn a * sgn b * (\<bar>a\<bar> div \<bar>b\<bar>)"

definition c_mod :: "int \<Rightarrow> int \<Rightarrow> int" where
  "c_mod a b = a - b * c_div a b"

section \<open>Data bus\<close>

text \<open>\<^verbatim>\<open>avail_data_bus\<close> (dram.cc 722-728).\<close>

definition avail_data_bus :: "dram_controller_c \<Rightarrow> nat \<Rightarrow> bool" where
  "avail_data_bus s channel_id \<longleftrightarrow> m_dbus_ready s channel_id \<le> m_simulation_cycle s"

text \<open>
  \<^verbatim>\<open>acquire_data_bus\<close> (dram.cc 732-759).  \<open>dram_cycle_gpu c\<close> stands for
  \<^verbatim>\<open>static_cast<int>(c * m_dram_one_cycle_gpu + 0.5)\<close>, likewise for the CPU.  The sum
  \<^verbatim>\<open>Counter + int\<close> converts the int to 64 bits and wraps.
\<close>

definition acquire_data_bus ::
  "dram_controller_c \<Rightarrow> nat \<Rightarrow> int \<Rightarrow> bool \<Rightarrow> abort + (Counter \<times> dram_controller_c)" where
  "acquire_data_bus s channel_id req_size gpu_req =
     (if req_size < m_byte_avail s channel_id then
        (let s1 = s\<lparr>m_byte_avail := (m_byte_avail s)(channel_id := m_byte_avail s channel_id - req_size)\<rparr>;
             latency = m_simulation_cycle s
         in Inr (latency, s1\<lparr>m_dbus_ready := (m_dbus_ready s1)(channel_id := latency)\<rparr>))
      else if m_bus_width s = 0 then Inl Div_by_zero
      else
        (let cycle = c_div (req_size - m_byte_avail s channel_id) (m_bus_width s) + 1;
             dram_cycle = (if gpu_req then dram_cycle_gpu s cycle else dram_cycle_cpu s cycle);
             latency = m_simulation_cycle s + word_of_int dram_cycle;
             s1 = s\<lparr>m_byte_avail := (m_byte_avail s)(channel_id :=
                      m_bus_width s - c_mod (req_size - m_byte_avail s channel_id) (m_bus_width s))\<rparr>
         in Inr (latency, s1\<lparr>m_dbus_ready := (m_dbus_ready s1)(channel_id := latency)\<rparr>)))"

section \<open>Entries and construction\<close>

text \<open>\<^verbatim>\<open>drb_entry_s::reset\<close> (dram.cc 100-117).\<close>

definition reset :: "drb_entry_s \<Rightarrow> drb_entry_s" where
  "reset e = e\<lparr>m_id := - 1, m_state := DRAM_INIT, m_addr := 0, m_bid := - 1, m_rid := - 1,
     m_cid := - 1, m_core_id := - 1, m_thread_id := - 1, m_appl_id := - 1, m_read := False,
     m_req := None, m_priority := 0, m_size := 0, m_timestamp := 0, m_scheduled := 0\<rparr>"

text \<open>
  Modelled from the spec: \<^verbatim>\<open>log2_int\<close> and \<^verbatim>\<open>N_BIT_MASK\<close> come from utils.h, which
  is not part of the sources.  The spec decodes with \<open>mod\<close> and \<open>div\<close> by powers of two,
  so \<open>log2_int\<close> is the integer logarithm and \<open>N_BIT_MASK n\<close> the word of \<open>n\<close>
  low one-bits.
\<close>

fun log2_int :: "nat \<Rightarrow> nat" where
  "log2_int n = (if n < 2 then 0 else Suc (log2_int (n div 2)))"

declare log2_int.simps [simp del]

definition N_BIT_MASK :: "nat \<Rightarrow> Addr" where
  "N_BIT_MASK n = push_bit n 1 - 1"

text \<open>The knobs read by the constructor only.  The six latencies are the results of the
  constructor's floating-point products, e.g.
  \<^verbatim>\<open>static_cast<int>(m_dram_one_cycle_cpu * KNOB_DRAM_ACTIVATE)\<close>.\<close>

record knobs_s =
  KNOB_DRAM_NUM_BANKS :: nat
  KNOB_DRAM_NUM_CHANNEL :: nat
  KNOB_DRAM_BUS_WIDTH :: int
  KNOB_DRAM_DDR_FACTOR :: int
  KNOB_DRAM_ROWBUFFER_SIZE :: nat
  KNOB_L3_LINE_SIZE :: nat
  precharge_cpu :: int
  activate_cpu :: int
  column_cpu :: int
  precharge_gpu :: int
  activate_gpu :: int
  column_gpu :: int

text \<open>
  The constructor (dram.cc 154-218) applied to the raw object \<open>u\<close>: members it does
  not assign (\<^verbatim>\<open>m_total_req\<close>, \<^verbatim>\<open>m_starvation_cycle\<close>, ...) keep the value found
  in \<open>u\<close>.  The \<open>jj\<close>-th entry allocated for bank \<open>ii\<close> gets the address
  \<open>ii * KNOB_DRAM_BUFFER_SIZE + jj\<close>; every allocated entry is reset by its own
  constructor.  \<^verbatim>\<open>m_num_bank / m_num_channel\<close> traps when there is no channel.
\<close>

definition dram_controller_c_new :: "knobs_s \<Rightarrow> dram_controller_c \<Rightarrow> abort + dram_controller_c" where
  "dram_controller_c_new k u =
     (if KNOB_DRAM_NUM_CHANNEL k = 0 then Inl Div_by_zero
      else Inr (u\<lparr>
        m_num_bank := KNOB_DRAM_NUM_BANKS k,
        m_num_channel := KNOB_DRAM_NUM_CHANNEL k,
        m_num_bank_per_channel := KNOB_DRAM_NUM_BANKS k div KNOB_DRAM_NUM_CHANNEL k,
        m_bus_width := KNOB_DRAM_BUS_WIDTH k * KNOB_DRAM_DDR_FACTOR k,
        m_buffer := (\<lambda>ii. []),
        m_buffer_free_list := (\<lambda>ii. map (\<lambda>jj. ii * KNOB_DRAM_BUFFER_SIZE u + jj) [0..<KNOB_DRAM_BUFFER_SIZE u]),
        m_current_list := (\<lambda>ii. None),
        m_current_rid := (\<lambda>ii. - 1),
        m_data_ready := (\<lambda>ii. ULLONG_MAX),
        m_data_avail := (\<lambda>ii. ULLONG_MAX),
        m_bank_ready := (\<lambda>ii. ULLONG_MAX),
        m_bank_timestamp := (\<lambda>ii. 0),
        m_byte_avail := (\<lambda>ii. KNOB_DRAM_BUS_WIDTH k * KNOB_DRAM_DDR_FACTOR k),
        m_dbus_ready := (\<lambda>ii. 0),
        m_cid_mask := N_BIT_MASK (log2_int (KNOB_DRAM_ROWBUFFER_SIZE k)),
        m_bid_shift := log2_int (KNOB_DRAM_ROWBUFFER_SIZE k),
        m_bid_mask := N_BIT_MASK (log2_int (KNOB_DRAM_NUM_BANKS k)),
        m_rid_shift := log2_int (KNOB_DRAM_NUM_BANKS k),
        m_bid_xor_shift := log2_int (KNOB_L3_LINE_SIZE k) + log2_int 512,
        m_precharge_latency_cpu := precharge_cpu k,
        m_activate_latency_cpu := activate_cpu k,
        m_column_latency_cpu := column_cpu k,
        m_precharge_latency_gpu := precharge_gpu k,
        m_activate_latency_gpu := activate_gpu k,
        m_column_latency_gpu := column_gpu k,
        drb_heap := (\<lambda>p. if p < KNOB_DRAM_NUM_BANKS k * KNOB_DRAM_BUFFER_SIZE u
                          then reset (drb_heap u p) else drb_heap u p)\<rparr>))"

section \<open>A concrete configuration\<close>

text \<open>One channel with two banks, four entries per bank, 2 KiB rows, 64-byte lines, a
  bus of 8 bytes; activate 10, column 5, precharge 10 host cycles.\<close>

definition demo_req :: mem_req_s where
  "demo_req = \<lparr>rq_id = 0, rq_addr = 0, rq_size = 64, rq_type = MRT_DFETCH, rq_state = MEM_UPSTREAM,
     rq_core_id = 0, rq_thread_id = 0, rq_appl_id = 0, rq_ptx = False, rq_msg_type = NOC_NONE,
     rq_msg_src = 0, rq_msg_dst = 0, rq_cache_id_L3 = 0\<rparr>"

definition demo_entry :: drb_entry_s where
  "demo_entry = \<lparr>m_id = 0, m_state = DRAM_INIT, m_addr = 0, m_bid = 0, m_rid = 0, m_cid = 0,
     m_core_id = 0, m_thread_id = 0, m_appl_id = 0, m_read = False, m_req = None, m_priority = 0,
     m_size = 0, m_timestamp = 0, m_scheduled = 0\<rparr>"

definition demo_raw :: dram_controller_c where
  "demo_raw = \<lparr>m_num_bank = 0, m_num_channel = 0, m_num_bank_per_channel = 0, m_bus_width = 0,
     m_buffer = (\<lambda>ii. []), m_buffer_free_list = (\<lambda>ii. []), m_current_list = (\<lambda>ii. None),
     m_current_rid = (\<lambda>ii. 0), m_data_ready = (\<lambda>ii. 0), m_data_avail = (\<lambda>ii. 0),
     m_bank_ready = (\<lambda>ii. 0), m_bank_timestamp = (\<lambda>ii. 0), m_byte_avail = (\<lambda>ii. 0),
     m_dbus_ready = (\<lambda>ii. 0), m_cid_mask = 0, m_bid_shift = 0, m_bid_mask = 0, m_rid_shift = 0,
     m_bid_xor_shift = 0, m_precharge_latency_cpu = 0, m_activate_latency_cpu = 0,
     m_column_latency_cpu = 0, m_precharge_latency_gpu = 0, m_activate_latency_gpu = 0,
     m_column_latency_gpu = 0, dram_cycle_cpu = (\<lambda>c. 4 * c), dram_cycle_gpu = (\<lambda>c. 2 * c),
     m_total_req = 0, m_num_completed_in_last_cycle = 0, m_starvation_cycle = 0, m_noc_id = 7,
     m_policy = FCFS, m_unique_id = 0, drb_heap = (\<lambda>p. demo_entry),
     req_heap = (\<lambda>p. demo_req), m_simulation_cycle = 0, KNOB_DRAM_BANK_XOR_INDEX = False,
     KNOB_DRAM_MERGE_REQUESTS = True, KNOB_DRAM_BUFFER_SIZE = 4, IRIS = False,
     terminal_node_id = 7, dst_router_id = (\<lambda>c. c), receive_queue = [], pool_freed = [],
     noc_oracle = (\<lambda>k. True), noc_calls = 0, noc_sent = []\<rparr>"

definition demo_knobs :: knobs_s where
  "demo_knobs = \<lparr>KNOB_DRAM_NUM_BANKS = 2, KNOB_DRAM_NUM_CHANNEL = 1, KNOB_DRAM_BUS_WIDTH = 4,
     KNOB_DRAM_DDR_FACTOR = 2, KNOB_DRAM_ROWBUFFER_SIZE = 2048, KNOB_L3_LINE_SIZE = 64,
     precharge_cpu = 10, activate_cpu = 10, column_cpu = 5,
     precharge_gpu = 6, activate_gpu = 6, column_gpu = 3\<rparr>"

text \<open>The state the constructor builds from \<open>demo_knobs\<close>, written out (see
  \<open>demo_new\<close> below).\<close>

definition demo :: dram_controller_c where
  "demo = demo_raw\<lparr>m_num_bank := 2, m_num_channel := 1, m_num_bank_per_channel := 2,
     m_bus_width := 8, m_buffer_free_list := (\<lambda>ii. map (\<lambda>jj. ii * 4 + jj) [0, 1, 2, 3]),
     m_current_rid := (\<lambda>ii. - 1), m_data_ready := (\<lambda>ii. ULLONG_MAX),
     m_data_avail := (\<lambda>ii. ULLONG_MAX), m_bank_ready := (\<lambda>ii. ULLONG_MAX),
     m_byte_avail := (\<lambda>ii. 8), m_cid_mask := 2047, m_bid_shift := 11, m_bid_mask := 1,
     m_rid_shift := 1, m_bid_xor_shift := 15, m_precharge_latency_cpu := 10,
     m_activate_latency_cpu := 10, m_column_latency_cpu := 5, m_precharge_latency_gpu := 6,
     m_activate_latency_gpu := 6, m_column_latency_gpu := 3,
     drb_heap := (\<lambda>p. if p < 8 then reset demo_entry else demo_entry)\<rparr>"

text \<open>The data-bus accounting invariant: every channel has between one byte and a full
  bus width left in its current DRAM cycle.\<close>

definition byte_avail_ok :: "dram_controller_c \<Rightarrow> bool" where
  "byte_avail_ok s \<longleftrightarrow>
     (\<forall>c<m_num_channel s. 1 \<le> m_byte_avail s c \<and> m_byte_avail s c \<le> m_bus_width s)"

section \<open>Ingress\<close>

text \<open>The conversion of a 64-bit unsigned value to a C \<^verbatim>\<open>int\<close> keeps the low 32 bits,
  read as two's complement.\<close>

definition c_int :: "64 word \<Rightarrow> int" where
  "c_int w = signed_take_bit 31 (uint w)"

text \<open>
  Address parsing, the first lines of \<^verbatim>\<open>insert_new_req\<close> (dram.cc 249-253); the
  result is \<open>(bid_xor, cid, bid, rid)\<close>, each a C \<^verbatim>\<open>int\<close>.
\<close>

definition address_parsing :: "dram_controller_c \<Rightarrow> Addr \<Rightarrow> int \<times> int \<times> int \<times> int" where
  "address_parsing s addr =
     (let bid_xor = c_int (drop_bit (m_bid_xor_shift s) addr AND m_bid_mask s);
          cid = c_int (addr AND m_cid_mask s);
          addr1 = drop_bit (m_bid_shift s) addr;
          bid = c_int (addr1 AND m_bid_mask s);
          addr2 = drop_bit (m_rid_shift s) addr1;
          rid = c_int addr2
      in (bid_xor, cid, bid, rid))"

text \<open>Permutation-based interleaving (dram.cc 260-262).\<close>

definition permute_bank :: "dram_controller_c \<Rightarrow> int \<Rightarrow> int \<Rightarrow> int" where
  "permute_bank s bid bid_xor = (if KNOB_DRAM_BANK_XOR_INDEX s then bid XOR bid_xor else bid)"

text \<open>The table \<^verbatim>\<open>dram_req_priority\<close> (dram.cc 59-73) holds zero for every type.\<close>

definition dram_req_priority :: "Mem_Req_Type \<Rightarrow> int" where
  "dram_req_priority t = 0"

text \<open>\<^verbatim>\<open>drb_entry_s::set\<close> (dram.cc 121-146), on the entry at address \<open>p\<close>; the static
  counter \<^verbatim>\<open>m_unique_id\<close> is post-incremented.\<close>

definition drb_set :: "dram_controller_c \<Rightarrow> nat \<Rightarrow> nat \<Rightarrow> int \<Rightarrow> int \<Rightarrow> int \<Rightarrow> abort + dram_controller_c" where
  "drb_set s p mem_req bid rid cid =
     (let r = req_heap s mem_req;
          e = (drb_heap s p)\<lparr>m_id := m_unique_id s, m_addr := rq_addr r, m_bid := bid, m_rid := rid,
                m_cid := cid, m_core_id := rq_core_id r, m_thread_id := rq_thread_id r,
                m_appl_id := rq_appl_id r, m_req := Some mem_req, m_size := rq_size r,
                m_timestamp := m_simulation_cycle s, m_priority := dram_req_priority (rq_type r),
                m_read := (case rq_type r of MRT_WB \<Rightarrow> False | _ \<Rightarrow> True)\<rparr>;
          s1 = s\<lparr>m_unique_id := m_unique_id s + 1, drb_heap := (drb_heap s)(p := e)\<rparr>
      in if rid \<ge> 0 then Inr s1 else Inl ASSERT_failed)"

text \<open>\<^verbatim>\<open>insert_req_in_drb\<close> (dram.cc 309-321).  \<^verbatim>\<open>front()\<close> of an empty list is
  undefined behaviour; the model aborts there.\<close>

definition insert_req_in_drb :: "dram_controller_c \<Rightarrow> nat \<Rightarrow> nat \<Rightarrow> int \<Rightarrow> int \<Rightarrow> abort + dram_controller_c" where
  "insert_req_in_drb s mem_req bid rid cid =
     (case m_buffer_free_list s bid of
        [] \<Rightarrow> Inl Empty_list_access
      | new_entry # rest \<Rightarrow>
          seq (drb_set (s\<lparr>m_buffer_free_list := (m_buffer_free_list s)(bid := rest)\<rparr>)
                 new_entry mem_req (int bid) rid cid)
            (\<lambda>s1. Inr (s1\<lparr>m_buffer := (m_buffer s1)(bid := m_buffer s1 bid @ [new_entry])\<rparr>)))"

text \<open>
  \<^verbatim>\<open>flush_prefetch\<close> (dram.cc 290-305).  The first loop collects the prefetch
  entries of the bank; the second returns each request to the pool, appends the entry
  to the free list, removes it from the pending list (\<^verbatim>\<open>list::remove\<close> deletes every
  element equal to the pointer) and decrements the request counter.  The entry is not
  reset.
\<close>

fun collect_prefetch :: "dram_controller_c \<Rightarrow> nat list \<Rightarrow> abort + nat list" where
  "collect_prefetch s [] = Inr []"
| "collect_prefetch s (I # Is) =
     (case m_req (drb_heap s I) of
        None \<Rightarrow> Inl NULL_deref
      | Some r \<Rightarrow> seq (collect_prefetch s Is)
          (\<lambda>done_list. Inr (if rq_type (req_heap s r) = MRT_DPRF then I # done_list else done_list)))"

definition flush_one :: "nat \<Rightarrow> nat \<Rightarrow> dram_controller_c \<Rightarrow> abort + dram_controller_c" where
  "flush_one bid I s =
     (case m_req (drb_heap s I) of
        None \<Rightarrow> Inl NULL_deref
      | Some r \<Rightarrow> Inr (s\<lparr>pool_freed := pool_freed s @ [r],
                         m_buffer_free_list := (m_buffer_free_list s)(bid := m_buffer_free_list s bid @ [I]),
                         m_buffer := (m_buffer s)(bid := removeAll I (m_buffer s bid)),
                         m_total_req := m_total_req s - 1\<rparr>))"

definition flush_prefetch :: "dram_controller_c \<Rightarrow> nat \<Rightarrow> abort + dram_controller_c" where
  "flush_prefetch s bid =
     seq (collect_prefetch s (m_buffer s bid)) (\<lambda>done_list. for_each done_list (flush_one bid) s)"

text \<open>
  \<^verbatim>\<open>insert_new_req\<close> (dram.cc 246-286); \<open>mem_req\<close> is the address of the request.
  The result carries the boolean the function returns.  The hook \<^verbatim>\<open>on_insert\<close> is empty.
\<close>

definition insert_new_req :: "dram_controller_c \<Rightarrow> nat \<Rightarrow> abort + (bool \<times> dram_controller_c)" where
  "insert_new_req s mem_req =
     (case address_parsing s (rq_addr (req_heap s mem_req)) of (bid_xor, cid, bid0, rid) \<Rightarrow>
        if \<not> rid \<ge> 0 then Inl ASSERT_failed
        else
          (let bid = nat (permute_bank s bid0 bid_xor) in
           seq (if m_buffer_free_list s bid = [] then flush_prefetch s bid else Inr s)
             (\<lambda>s1. if m_buffer_free_list s1 bid = [] then Inr (False, s1)
                    else seq (insert_req_in_drb s1 mem_req bid rid cid)
                      (\<lambda>s2. Inr (True, s2\<lparr>m_total_req := m_total_req s2 + 1,
                                req_heap := (req_heap s2)(mem_req :=
                                   (req_heap s2 mem_req)\<lparr>rq_state := MEM_DRAM_START\<rparr>)\<rparr>)))))"

text \<open>The demonstration controller facing a request (at address 0 of the request
  store) for the physical address \<open>2 ^ 44\<close>.\<close>

definition demo_far :: dram_controller_c where
  "demo_far = demo\<lparr>req_heap := (req_heap demo)(0 := demo_req\<lparr>rq_addr := 17592186044416\<rparr>)\<rparr>"

section \<open>Channel command scheduler\<close>

text \<open>The banks of channel \<open>ii\<close>, in the order the loops visit them.\<close>

definition channel_banks :: "dram_controller_c \<Rightarrow> nat \<Rightarrow> nat list" where
  "channel_banks s ii = [ii * m_num_bank_per_channel s ..< (ii + 1) * m_num_bank_per_channel s]"

text \<open>
  The selection loops of \<^verbatim>\<open>channel_schedule_cmd\<close> and \<^verbatim>\<open>channel_schedule_data\<close>
  (dram.cc 622-631, 693-703): among the banks that satisfy the loop's condition, the one
  with the strictly smallest \<^verbatim>\<open>m_bank_timestamp\<close> seen so far wins; \<open>oldest\<close> starts at
  \<^verbatim>\<open>ULLONG_MAX\<close> and \<open>bank\<close> at \<open>- 1\<close> (here \<open>None\<close>).
\<close>

fun oldest_bank :: "(nat \<Rightarrow> bool) \<Rightarrow> (nat \<Rightarrow> Counter) \<Rightarrow> nat list \<Rightarrow> Counter \<times> nat option \<Rightarrow> Counter \<times> nat option" where
  "oldest_bank ready ts [] acc = acc"
| "oldest_bank ready ts (jj # js) (oldest, bank) =
     oldest_bank ready ts js (if ready jj \<and> ts jj < oldest then (ts jj, Some jj) else (oldest, bank))"

definition cmd_ready :: "dram_controller_c \<Rightarrow> nat \<Rightarrow> bool" where
  "cmd_ready s jj \<longleftrightarrow>
     (case m_current_list s jj of None \<Rightarrow> False | Some e \<Rightarrow> m_state (drb_heap s e) = DRAM_CMD)"

definition select_cmd :: "dram_controller_c \<Rightarrow> nat \<Rightarrow> nat option" where
  "select_cmd s ii = snd (oldest_bank (cmd_ready s) (m_bank_timestamp s) (channel_banks s ii) (ULLONG_MAX, None))"

text \<open>The body of \<^verbatim>\<open>if (bank != -1)\<close> in \<^verbatim>\<open>channel_schedule_cmd\<close> (dram.cc 633-665):
  activate, column access or precharge on the selected bank.\<close>

definition cmd_issue :: "dram_controller_c \<Rightarrow> nat \<Rightarrow> abort + dram_controller_c" where
  "cmd_issue s bank =
     (case m_current_list s bank of
        None \<Rightarrow> Inl NULL_deref
      | Some e \<Rightarrow>
          if m_state (drb_heap s e) \<noteq> DRAM_CMD then Inl ASSERT_failed
          else
            (case m_req (drb_heap s e) of
               None \<Rightarrow> Inl NULL_deref
             | Some r \<Rightarrow>
                 (let s1 = s\<lparr>req_heap := (req_heap s)(r := (req_heap s r)\<lparr>rq_state := MEM_DRAM_CMD\<rparr>)\<rparr>;
                      ptx = rq_ptx (req_heap s1 r);
                      now = m_simulation_cycle s1
                  in if m_current_rid s1 bank = - 1 then
                       Inr (s1\<lparr>m_current_rid := (m_current_rid s1)(bank := m_rid (drb_heap s1 e)),
                               m_bank_ready := (m_bank_ready s1)(bank := now + word_of_int
                                  (if ptx then m_activate_latency_gpu s1 else m_activate_latency_cpu s1)),
                               m_data_avail := (m_data_avail s1)(bank := ULLONG_MAX),
                               drb_heap := (drb_heap s1)(e := (drb_heap s1 e)\<lparr>m_state := DRAM_CMD_WAIT\<rparr>)\<rparr>)
                     else if m_rid (drb_heap s1 e) = m_current_rid s1 bank then
                       (let ready = now + word_of_int
                                  (if ptx then m_column_latency_gpu s1 else m_column_latency_cpu s1)
                        in Inr (s1\<lparr>m_bank_ready := (m_bank_ready s1)(bank := ready),
                                  m_data_avail := (m_data_avail s1)(bank := ready),
                                  drb_heap := (drb_heap s1)(e := (drb_heap s1 e)\<lparr>m_state := DRAM_DATA\<rparr>)\<rparr>))
                     else
                       Inr (s1\<lparr>m_current_rid := (m_current_rid s1)(bank := - 1),
                               m_bank_ready := (m_bank_ready s1)(bank := now + word_of_int
                                  (if ptx then m_precharge_latency_gpu s1 else m_precharge_latency_cpu s1)),
                               m_data_avail := (m_data_avail s1)(bank := ULLONG_MAX),
                               drb_heap := (drb_heap s1)(e := (drb_heap s1 e)\<lparr>m_state := DRAM_CMD_WAIT\<rparr>)\<rparr>))))"

text \<open>One iteration of the channel loop, and \<^verbatim>\<open>channel_schedule_cmd\<close> (dram.cc 619-667).\<close>

definition channel_cmd :: "nat \<Rightarrow> dram_controller_c \<Rightarrow> abort + dram_controller_c" where
  "channel_cmd ii s = (case select_cmd s ii of None \<Rightarrow> Inr s | Some bank \<Rightarrow> cmd_issue s bank)"

definition channel_schedule_cmd :: "dram_controller_c \<Rightarrow> abort + dram_controller_c" where
  "channel_schedule_cmd s = for_each [0..<m_num_channel s] channel_cmd s"

section \<open>Scheduling policies and selection of a new request\<close>

text \<open>
  Modelled from the spec: \<^verbatim>\<open>std::list::sort\<close> belongs to the C++ library, not to the
  sources.  The spec asks for a stable sort with the comparator; \<open>list_sort\<close> is the
  stable insertion sort: an element is placed before the first element that does not
  precede it.
\<close>

fun sort_insert :: "('a \<Rightarrow> 'a \<Rightarrow> bool) \<Rightarrow> 'a \<Rightarrow> 'a list \<Rightarrow> 'a list" where
  "sort_insert lt x [] = [x]"
| "sort_insert lt x (y # ys) = (if lt y x then y # sort_insert lt x ys else x # y # ys)"

definition list_sort :: "('a \<Rightarrow> 'a \<Rightarrow> bool) \<Rightarrow> 'a list \<Rightarrow> 'a list" where
  "list_sort lt xs = foldr (sort_insert lt) xs []"

text \<open>
  \<^verbatim>\<open>dc_frfcfs_c::sort_func::operator()\<close> (dram.cc 804-822) on two entry pointers.
  Every comparison dereferences \<^verbatim>\<open>m_req\<close> of both entries; \<open>schedule\<close> below aborts
  before sorting when one of them is NULL, so the value chosen here for a NULL request
  is never used.
\<close>

definition is_prefetch :: "dram_controller_c \<Rightarrow> nat \<Rightarrow> bool" where
  "is_prefetch s p \<longleftrightarrow>
     (case m_req (drb_heap s p) of None \<Rightarrow> False | Some r \<Rightarrow> rq_type (req_heap s r) = MRT_DPRF)"

definition sort_func :: "dram_controller_c \<Rightarrow> nat \<Rightarrow> nat \<Rightarrow> bool" where
  "sort_func s req_a req_b =
     (let bid = m_bid (drb_heap s req_a);
          current_rid = m_current_rid s (nat bid)
      in if \<not> is_prefetch s req_a \<and> is_prefetch s req_b then True
         else if is_prefetch s req_a \<and> \<not> is_prefetch s req_b then False
         else if m_rid (drb_heap s req_a) = current_rid \<and> m_rid (drb_heap s req_b) \<noteq> current_rid then True
         else if m_rid (drb_heap s req_a) \<noteq> current_rid \<and> m_rid (drb_heap s req_b) = current_rid then False
         else m_timestamp (drb_heap s req_a) < m_timestamp (drb_heap s req_b))"

text \<open>
  The virtual \<^verbatim>\<open>schedule\<close> on the pending list of bank \<open>ii\<close>:
  \<^verbatim>\<open>dram_controller_c::schedule\<close> (dram.cc 595-603) returns the front;
  \<^verbatim>\<open>dc_frfcfs_c::schedule\<close> (dram.cc 835-840) sorts the list in place and returns the
  front.  A sort of fewer than two elements compares nothing.
\<close>

definition schedule :: "dram_controller_c \<Rightarrow> nat \<Rightarrow> abort + (nat \<times> dram_controller_c)" where
  "schedule s ii =
     (case m_policy s of
        FCFS \<Rightarrow> (case m_buffer s ii of [] \<Rightarrow> Inl ASSERT_failed | entry # rest \<Rightarrow> Inr (entry, s))
      | FRFCFS \<Rightarrow>
          if 2 \<le> length (m_buffer s ii) \<and> (\<exists>p \<in> set (m_buffer s ii). m_req (drb_heap s p) = None)
          then Inl NULL_deref
          else
            (let s1 = s\<lparr>m_buffer := (m_buffer s)(ii := list_sort (sort_func s) (m_buffer s ii))\<rparr>
             in case m_buffer s1 ii of [] \<Rightarrow> Inl Empty_list_access | entry # rest \<Rightarrow> Inr (entry, s1)))"

text \<open>One iteration of the bank loop of \<^verbatim>\<open>bank_schedule_new\<close>, and the function itself
  (dram.cc 557-591).\<close>

definition bank_new :: "nat \<Rightarrow> dram_controller_c \<Rightarrow> abort + dram_controller_c" where
  "bank_new ii s =
     (if m_buffer s ii = [] \<and> m_current_list s ii = None then Inr s
      else
        (case m_current_list s ii of
           None \<Rightarrow>
             seq (schedule s ii)
               (\<lambda>(entry, s1).
                  let s2 = s1\<lparr>m_current_list := (m_current_list s1)(ii := Some entry)\<rparr>;
                      s3 = s2\<lparr>drb_heap := (drb_heap s2)(entry := (drb_heap s2 entry)
                              \<lparr>m_state := DRAM_CMD, m_scheduled := m_simulation_cycle s2\<rparr>)\<rparr>;
                      s4 = s3\<lparr>m_buffer := (m_buffer s3)(ii := removeAll entry (m_buffer s3 ii))\<rparr>
                  in Inr (s4\<lparr>m_bank_ready := (m_bank_ready s4)(ii := ULLONG_MAX),
                            m_bank_timestamp := (m_bank_timestamp s4)(ii := m_simulation_cycle s4)\<rparr>))
         | Some e \<Rightarrow>
             if m_bank_ready s ii \<le> m_simulation_cycle s \<and> m_state (drb_heap s e) = DRAM_CMD_WAIT
             then Inr (s\<lparr>m_bank_ready := (m_bank_ready s)(ii := ULLONG_MAX),
                        drb_heap := (drb_heap s)(e := (drb_heap s e)\<lparr>m_state := DRAM_CMD\<rparr>),
                        m_bank_timestamp := (m_bank_timestamp s)(ii := m_simulation_cycle s)\<rparr>)
             else Inr s))"

definition bank_schedule_new :: "dram_controller_c \<Rightarrow> abort + dram_controller_c" where
  "bank_schedule_new s = for_each [0..<m_num_bank s] bank_new s"

section \<open>Further concrete states\<close>

text \<open>The demonstration controller at cycle 5 after \<^verbatim>\<open>insert_new_req\<close> of request 0
  (64 bytes, address 0: bank 0, row 0), and at cycle 6 after \<^verbatim>\<open>bank_schedule_new\<close>
  has selected that request at cycle 5 (see \<open>demo_queued_run\<close>, \<open>demo_selected_run\<close>).\<close>

definition demo_entry0 :: drb_entry_s where
  "demo_entry0 = \<lparr>m_id = 0, m_state = DRAM_INIT, m_addr = 0, m_bid = 0, m_rid = 0, m_cid = 0,
     m_core_id = 0, m_thread_id = 0, m_appl_id = 0, m_read = True, m_req = Some 0, m_priority = 0,
     m_size = 64, m_timestamp = 5, m_scheduled = 0\<rparr>"

definition demo_queued :: dram_controller_c where
  "demo_queued = demo\<lparr>m_simulation_cycle := 5,
      m_buffer_free_list := (m_buffer_free_list demo)(0 := [1, 2, 3]),
      m_buffer := (m_buffer demo)(0 := [0]),
      drb_heap := (drb_heap demo)(0 := demo_entry0),
      m_unique_id := 1, m_total_req := 1,
      req_heap := (req_heap demo)(0 := demo_req\<lparr>rq_state := MEM_DRAM_START\<rparr>)\<rparr>"

definition demo_selected :: dram_controller_c where
  "demo_selected = demo_queued\<lparr>m_simulation_cycle := 6,
      m_current_list := (m_current_list demo)(0 := Some 0),
      drb_heap := (drb_heap demo)(0 := demo_entry0\<lparr>m_state := DRAM_CMD, m_scheduled := 5\<rparr>),
      m_buffer := (m_buffer demo)(0 := []),
      m_bank_ready := (m_bank_ready demo)(0 := ULLONG_MAX),
      m_bank_timestamp := (m_bank_timestamp demo)(0 := 5)\<rparr>"

text \<open>The condition under which \<^verbatim>\<open>bank_schedule_new\<close> puts the entry of bank \<open>ii\<close>
  into state CMD: a new request is selected, or the bank is re-armed after CMD_WAIT.\<close>

definition enters_cmd :: "dram_controller_c \<Rightarrow> nat \<Rightarrow> bool" where
  "enters_cmd s ii \<longleftrightarrow>
     (case m_current_list s ii of
        None \<Rightarrow> m_buffer s ii \<noteq> []
      | Some e \<Rightarrow> m_bank_ready s ii \<le> m_simulation_cycle s \<and> m_state (drb_heap s e) = DRAM_CMD_WAIT)"

text \<open>A numeric key that orders entries as \<open>sort_func\<close> does when \<open>cur\<close> is the
  open row the comparator looks up: demand before prefetch, then row hit before miss,
  then the insert time.  It serves the proofs about the sort only.\<close>

definition frfcfs_key :: "dram_controller_c \<Rightarrow> int \<Rightarrow> nat \<Rightarrow> nat" where
  "frfcfs_key s cur p =
     (if is_prefetch s p then 2 * 2 ^ 64 else 0) +
     (if m_rid (drb_heap s p) = cur then 0 else 2 ^ 64) +
     unat (m_timestamp (drb_heap s p))"

text \<open>Bank 0 of the demonstration controller with row 7 open and two pending demand
  requests: entry 0 for row 3 queued at cycle 1, entry 1 for row 7 queued at cycle 2.\<close>

definition demo_rows :: "Policy \<Rightarrow> dram_controller_c" where
  "demo_rows pol = demo\<lparr>m_policy := pol, m_simulation_cycle := 3,
      m_current_rid := (m_current_rid demo)(0 := 7),
      m_buffer := (m_buffer demo)(0 := [0, 1]),
      m_buffer_free_list := (m_buffer_free_list demo)(0 := [2, 3]),
      drb_heap := (drb_heap demo)
        (0 := demo_entry0\<lparr>m_addr := 0x3000, m_rid := 3, m_timestamp := 1\<rparr>,
         1 := demo_entry0\<lparr>m_id := 1, m_addr := 0x7000, m_rid := 7, m_req := Some 1, m_timestamp := 2\<rparr>),
      req_heap := (req_heap demo)
        (0 := demo_req\<lparr>rq_addr := 0x3000, rq_state := MEM_DRAM_START\<rparr>,
         1 := demo_req\<lparr>rq_id := 1, rq_addr := 0x7000, rq_state := MEM_DRAM_START\<rparr>),
      m_unique_id := 2, m_total_req := 2\<rparr>"

text \<open>The state after the prefetch flush of bank \<open>bid\<close>, and the state after queueing
  request \<open>mem_req\<close> in the entry \<open>e\<close> of that bank, as the claim describes them.\<close>

definition flushed :: "dram_controller_c \<Rightarrow> nat \<Rightarrow> dram_controller_c" where
  "flushed s bid =
     s\<lparr>pool_freed := pool_freed s @
           map (\<lambda>I. the (m_req (drb_heap s I))) (filter (is_prefetch s) (m_buffer s bid)),
       m_buffer_free_list := (m_buffer_free_list s)
           (bid := m_buffer_free_list s bid @ filter (is_prefetch s) (m_buffer s bid)),
       m_buffer := (m_buffer s)(bid := filter (\<lambda>I. \<not> is_prefetch s I) (m_buffer s bid)),
       m_total_req := m_total_req s - int (length (filter (is_prefetch s) (m_buffer s bid)))\<rparr>"

definition queued :: "dram_controller_c \<Rightarrow> nat \<Rightarrow> nat \<Rightarrow> int \<Rightarrow> int \<Rightarrow> dram_controller_c" where
  "queued s mem_req bid rid cid =
     (let e = hd (m_buffer_free_list s bid); r = req_heap s mem_req in
      s\<lparr>m_buffer_free_list := (m_buffer_free_list s)(bid := tl (m_buffer_free_list s bid)),
        m_buffer := (m_buffer s)(bid := m_buffer s bid @ [e]),
        drb_heap := (drb_heap s)(e := (drb_heap s e)
           \<lparr>m_id := m_unique_id s, m_addr := rq_addr r, m_bid := int bid, m_rid := rid, m_cid := cid,
            m_core_id := rq_core_id r, m_thread_id := rq_thread_id r, m_appl_id := rq_appl_id r,
            m_read := (rq_type r \<noteq> MRT_WB), m_req := Some mem_req, m_priority := 0,
            m_size := rq_size r, m_timestamp := m_simulation_cycle s\<rparr>),
        m_unique_id := m_unique_id s + 1,
        m_total_req := m_total_req s + 1,
        req_heap := (req_heap s)(mem_req := r\<lparr>rq_state := MEM_DRAM_START\<rparr>)\<rparr>)"

text \<open>Bank 0 of the demonstration controller with all four entries pending and no free
  entry; requests 1 and 3 have type \<open>t\<close>, requests 0 and 2 are demand fetches.\<close>

definition demo_full :: "Mem_Req_Type \<Rightarrow> dram_controller_c" where
  "demo_full t = demo\<lparr>m_simulation_cycle := 9,
      m_buffer := (m_buffer demo)(0 := [0, 1, 2, 3]),
      m_buffer_free_list := (m_buffer_free_list demo)(0 := []),
      drb_heap := (\<lambda>p. if p < 4 then demo_entry0\<lparr>m_id := int p, m_req := Some p, m_timestamp := 1\<rparr>
                         else drb_heap demo p),
      req_heap := (\<lambda>p. demo_req\<lparr>rq_id := int p, rq_type := (if p = 1 \<or> p = 3 then t else MRT_DFETCH),
                         rq_state := (if p < 4 then MEM_DRAM_START else MEM_UPSTREAM)\<rparr>),
      m_unique_id := 4, m_total_req := 4\<rparr>"

section \<open>Completion\<close>

text \<open>\<^verbatim>\<open>m_memory->free_req\<close>: the request goes back to the external pool.\<close>

definition free_req :: "dram_controller_c \<Rightarrow> nat \<Rightarrow> dram_controller_c" where
  "free_req s r = s\<lparr>pool_freed := pool_freed s @ [r]\<rparr>"

text \<open>
  \<^verbatim>\<open>send_packet\<close> (dram.cc 495-538) for the entry at address \<open>p\<close>.  The message fields
  of the request are written before the network is asked, also when it refuses.  In
  the IRIS build the source and destination come from the terminal and the router
  table; otherwise \<^verbatim>\<open>m_msg_dst\<close> is whatever the request carries.  The \<open>k\<close>-th
  submission is accepted iff \<open>noc_oracle k\<close>.
\<close>

definition send_packet :: "dram_controller_c \<Rightarrow> nat \<Rightarrow> abort + (bool \<times> dram_controller_c)" where
  "send_packet s p =
     (case m_req (drb_heap s p) of
        None \<Rightarrow> Inl NULL_deref
      | Some r \<Rightarrow>
          (let rq1 = (req_heap s r)\<lparr>rq_msg_type := NOC_FILL, rq_msg_src := m_noc_id s\<rparr>;
               rq2 = (if IRIS s
                      then rq1\<lparr>rq_msg_src := terminal_node_id s,
                               rq_msg_dst := dst_router_id s (rq_cache_id_L3 rq1)\<rparr>
                      else rq1);
               s1 = s\<lparr>req_heap := (req_heap s)(r := rq2)\<rparr>
           in if \<not> (rq_msg_src rq2 \<noteq> - 1 \<and> rq_msg_dst rq2 \<noteq> - 1) then Inl ASSERT_failed
              else
                (let s2 = s1\<lparr>noc_calls := noc_calls s1 + 1\<rparr>
                 in if \<not> noc_oracle s1 (noc_calls s1) then Inr (False, s2)
                    else Inr (True, s2\<lparr>noc_sent := noc_sent s2 @ [r]\<rparr>))))"

text \<open>
  The first loop of the merge block of \<^verbatim>\<open>bank_schedule_complete\<close> (dram.cc 418-440)
  over the pending entries of a bank whose current entry is \<open>c\<close>; the accumulator
  holds \<^verbatim>\<open>need_to_stop\<close>, \<^verbatim>\<open>temp_list\<close> and the state.  A refused send sets
  \<^verbatim>\<open>need_to_stop\<close> and \<^verbatim>\<open>continue\<close>s with the next pending entry.  The assignment
  \<^verbatim>\<open>m_num_completed_in_last_cycle = m_simulation_cycle\<close> narrows the cycle to the
  counter's type, taken to be \<^verbatim>\<open>int\<close>.
\<close>

fun merge_loop :: "nat \<Rightarrow> nat list \<Rightarrow> bool \<times> nat list \<times> dram_controller_c \<Rightarrow>
    abort + (bool \<times> nat list \<times> dram_controller_c)" where
  "merge_loop c [] acc = Inr acc"
| "merge_loop c (I # Is) (need_to_stop, temp_list, s) =
     (if m_addr (drb_heap s I) = m_addr (drb_heap s c) then
        (case m_req (drb_heap s I) of
           None \<Rightarrow> Inl NULL_deref
         | Some r \<Rightarrow>
             if rq_type (req_heap s r) = MRT_WB then
               merge_loop c Is (need_to_stop, temp_list @ [I],
                 (free_req s r)\<lparr>m_num_completed_in_last_cycle := c_int (m_simulation_cycle s)\<rparr>)
             else
               (case send_packet s I of
                  Inl a \<Rightarrow> Inl a
                | Inr (sent, s1) \<Rightarrow>
                    if \<not> sent then merge_loop c Is (True, temp_list, s1)
                    else merge_loop c Is (need_to_stop, temp_list @ [I],
                      s1\<lparr>req_heap := (req_heap s1)(r := (req_heap s1 r)\<lparr>rq_state := MEM_DRAM_DONE\<rparr>),
                         m_num_completed_in_last_cycle := c_int (m_simulation_cycle s1)\<rparr>)))
      else merge_loop c Is (need_to_stop, temp_list, s))"

text \<open>The second loop (dram.cc 442-448): every entry of \<^verbatim>\<open>temp_list\<close> is reset, appended
  to the free list and removed from the pending list; the request counter drops.\<close>

definition merge_release :: "nat \<Rightarrow> nat \<Rightarrow> dram_controller_c \<Rightarrow> abort + dram_controller_c" where
  "merge_release ii I s =
     Inr (s\<lparr>drb_heap := (drb_heap s)(I := reset (drb_heap s I)),
            m_buffer_free_list := (m_buffer_free_list s)(ii := m_buffer_free_list s ii @ [I]),
            m_buffer := (m_buffer s)(ii := removeAll I (m_buffer s ii)),
            m_total_req := m_total_req s - 1\<rparr>)"

text \<open>The completion of the current entry \<open>c\<close> of bank \<open>ii\<close> itself (dram.cc 457-489).\<close>

definition complete_current :: "nat \<Rightarrow> nat \<Rightarrow> dram_controller_c \<Rightarrow> abort + dram_controller_c" where
  "complete_current ii c s =
     (case m_req (drb_heap s c) of
        None \<Rightarrow> Inl NULL_deref
      | Some r \<Rightarrow>
          seq (if rq_type (req_heap s r) = MRT_WB then Inr (True, free_req s r)
               else seq (send_packet s c)
                      (\<lambda>(sent, s1). Inr (sent, if sent
                          then s1\<lparr>req_heap := (req_heap s1)(r := (req_heap s1 r)\<lparr>rq_state := MEM_DRAM_DONE\<rparr>)\<rparr>
                          else s1)))
            (\<lambda>(done, s2).
               if \<not> done then Inr s2
               else Inr (s2\<lparr>drb_heap := (drb_heap s2)(c := reset (drb_heap s2 c)),
                           m_buffer_free_list := (m_buffer_free_list s2)(ii := m_buffer_free_list s2 ii @ [c]),
                           m_current_list := (m_current_list s2)(ii := None),
                           m_data_ready := (m_data_ready s2)(ii := ULLONG_MAX),
                           m_num_completed_in_last_cycle := m_num_completed_in_last_cycle s2 + 1,
                           m_total_req := m_total_req s2 - 1\<rparr>)))"

text \<open>One iteration of the bank loop of \<^verbatim>\<open>bank_schedule_complete\<close>, and the function
  (dram.cc 404-492).\<close>

definition bank_complete :: "nat \<Rightarrow> dram_controller_c \<Rightarrow> abort + dram_controller_c" where
  "bank_complete ii s =
     (case m_current_list s ii of
        None \<Rightarrow> Inr s
      | Some c \<Rightarrow>
          if \<not> m_data_ready s ii \<le> m_simulation_cycle s then Inr s
          else if m_state (drb_heap s c) \<noteq> DRAM_DATA_WAIT then Inl ASSERT_failed
          else
            seq (if KNOB_DRAM_MERGE_REQUESTS s
                 then seq (merge_loop c (m_buffer s ii) (False, [], s))
                        (\<lambda>(need_to_stop, temp_list, s1).
                           seq (for_each temp_list (merge_release ii) s1)
                             (\<lambda>s2. Inr (need_to_stop, s2)))
                 else Inr (False, s))
              (\<lambda>(need_to_stop, s3). if need_to_stop then Inr s3 else complete_current ii c s3))"

definition bank_schedule_complete :: "dram_controller_c \<Rightarrow> abort + dram_controller_c" where
  "bank_schedule_complete s =
     for_each [0..<m_num_bank s] bank_complete (s\<lparr>m_num_completed_in_last_cycle := 0\<rparr>)"

text \<open>\<^verbatim>\<open>bank_schedule\<close> (dram.cc 396-400).\<close>

definition bank_schedule :: "dram_controller_c \<Rightarrow> abort + dram_controller_c" where
  "bank_schedule s = seq (bank_schedule_complete s) bank_schedule_new"

section \<open>Channel data scheduler\<close>

definition data_ready :: "dram_controller_c \<Rightarrow> nat \<Rightarrow> bool" where
  "data_ready s jj \<longleftrightarrow>
     (case m_current_list s jj of
        None \<Rightarrow> False
      | Some e \<Rightarrow> m_state (drb_heap s e) = DRAM_DATA \<and> m_data_avail s jj \<le> m_simulation_cycle s)"

definition select_data :: "dram_controller_c \<Rightarrow> nat \<Rightarrow> nat option" where
  "select_data s ii = snd (oldest_bank (data_ready s) (m_bank_timestamp s) (channel_banks s ii) (ULLONG_MAX, None))"

text \<open>The body of \<^verbatim>\<open>if (bank != -1)\<close> in the \<^verbatim>\<open>while\<close> loop of
  \<^verbatim>\<open>channel_schedule_data\<close> (dram.cc 705-713).\<close>

definition data_issue :: "dram_controller_c \<Rightarrow> nat \<Rightarrow> nat \<Rightarrow> abort + dram_controller_c" where
  "data_issue s ii bank =
     (case m_current_list s bank of
        None \<Rightarrow> Inl NULL_deref
      | Some e \<Rightarrow>
          (case m_req (drb_heap s e) of
             None \<Rightarrow> Inl NULL_deref
           | Some r \<Rightarrow>
               (let s1 = s\<lparr>req_heap := (req_heap s)(r := (req_heap s r)\<lparr>rq_state := MEM_DRAM_DATA\<rparr>)\<rparr>
                in if m_state (drb_heap s1 e) \<noteq> DRAM_DATA then Inl ASSERT_failed
                   else
                     seq (acquire_data_bus s1 ii (m_size (drb_heap s1 e)) (rq_ptx (req_heap s1 r)))
                       (\<lambda>(latency, s2).
                          Inr (s2\<lparr>m_data_ready := (m_data_ready s2)(bank := latency),
                                 m_data_avail := (m_data_avail s2)(bank := ULLONG_MAX),
                                 drb_heap := (drb_heap s2)(e := (drb_heap s2 e)\<lparr>m_state := DRAM_DATA_WAIT\<rparr>)\<rparr>)))))"

lemma oldest_bank_member:
  "snd (oldest_bank ready ts js acc) = Some bank \<Longrightarrow>
     (bank \<in> set js \<and> ready bank) \<or> snd acc = Some bank"
proof (induction js arbitrary: acc)
  case Nil
  then show ?case by simp
next
  case (Cons jj js)
  obtain oldest b where acc: "acc = (oldest, b)" by (cases acc)
  from Cons.prems Cons.IH [of "if ready jj \<and> ts jj < oldest then (ts jj, Some jj) else (oldest, b)"]
  show ?case by (auto simp: acc split: if_splits)
qed

lemma acquire_data_bus_frame:
  assumes "acquire_data_bus s ch sz gpu = Inr (t, s')"
  shows "\<exists>a d. s' = s\<lparr>m_byte_avail := a, m_dbus_ready := d\<rparr>"
  using assms by (auto simp: acquire_data_bus_def Let_def split: if_splits)

lemma data_issue_less:
  assumes sel: "select_data s ii = Some bank" and iss: "data_issue s ii bank = Inr s'"
  shows "length (filter (data_ready s') (channel_banks s' ii)) <
         length (filter (data_ready s) (channel_banks s ii))"
proof -
  from oldest_bank_member [of "data_ready s" "m_bank_timestamp s" "channel_banks s ii" "(ULLONG_MAX, None)" bank] sel
  have mem: "bank \<in> set (channel_banks s ii)" and rdy: "data_ready s bank"
    by (simp_all add: select_data_def)
  from rdy obtain e where cur: "m_current_list s bank = Some e"
    by (auto simp: data_ready_def split: option.splits)
  from iss cur obtain r where req: "m_req (drb_heap s e) = Some r"
    by (auto simp: data_issue_def split: option.splits)
  let ?s1 = "s\<lparr>req_heap := (req_heap s)(r := (req_heap s r)\<lparr>rq_state := MEM_DRAM_DATA\<rparr>)\<rparr>"
  from iss cur req obtain t s2 where
    acq: "acquire_data_bus ?s1 ii (m_size (drb_heap ?s1 e)) (rq_ptx (req_heap ?s1 r)) = Inr (t, s2)"
    and s': "s' = s2\<lparr>m_data_ready := (m_data_ready s2)(bank := t),
                     m_data_avail := (m_data_avail s2)(bank := ULLONG_MAX),
                     drb_heap := (drb_heap s2)(e := (drb_heap s2 e)\<lparr>m_state := DRAM_DATA_WAIT\<rparr>)\<rparr>"
    by (auto simp: data_issue_def Let_def seq_def split: if_splits sum.splits)
  from acquire_data_bus_frame [OF acq] obtain a d where s2: "s2 = ?s1\<lparr>m_byte_avail := a, m_dbus_ready := d\<rparr>"
    by blast
  have banks: "channel_banks s' ii = channel_banks s ii"
    by (simp add: channel_banks_def s' s2)
  have imp: "data_ready s' jj \<Longrightarrow> data_ready s jj" for jj
    by (cases "jj = bank") (auto simp: data_ready_def s' s2 cur split: option.splits if_splits)
  have not: "\<not> data_ready s' bank"
    by (simp add: data_ready_def s' s2 cur)
  have "filter (data_ready s') (channel_banks s ii) =
        filter (data_ready s') (filter (data_ready s) (channel_banks s ii))"
    unfolding filter_filter by (rule filter_cong) (auto dest: imp)
  moreover have "bank \<in> set (filter (data_ready s) (channel_banks s ii))"
    using mem rdy by simp
  ultimately show ?thesis
    unfolding banks using not length_filter_less [of bank "filter (data_ready s) (channel_banks s ii)" "data_ready s'"]
    by simp
qed

text \<open>
  The \<^verbatim>\<open>while (avail_data_bus(ii))\<close> loop of channel \<open>ii\<close> (dram.cc 692-716).  Every
  turn moves one bank of the channel out of state DATA, so the loop ends.
\<close>

function channel_data :: "nat \<Rightarrow> dram_controller_c \<Rightarrow> abort + dram_controller_c" where
  "channel_data ii s =
     (if avail_data_bus s ii then
        (case select_data s ii of
           None \<Rightarrow> Inr s
         | Some bank \<Rightarrow>
             (case data_issue s ii bank of
                Inl a \<Rightarrow> Inl a
              | Inr s' \<Rightarrow> channel_data ii s'))
      else Inr s)"
  by pat_completeness auto
termination
  by (relation "measure (\<lambda>(ii, s). length (filter (data_ready s) (channel_banks s ii)))")
    (auto intro: data_issue_less)

declare channel_data.simps [simp del]

text \<open>\<^verbatim>\<open>channel_schedule_data\<close> (dram.cc 671-718) and \<^verbatim>\<open>channel_schedule\<close>
  (dram.cc 611-615).\<close>

definition channel_schedule_data :: "dram_controller_c \<Rightarrow> abort + dram_controller_c" where
  "channel_schedule_data s = for_each [0..<m_num_channel s] channel_data s"

definition channel_schedule :: "dram_controller_c \<Rightarrow> abort + dram_controller_c" where
  "channel_schedule s = seq (channel_schedule_cmd s) channel_schedule_data"

section \<open>The tick\<close>

text \<open>\<^verbatim>\<open>receive_packet\<close> (dram.cc 541-552): only the IRIS build drains the terminal.\<close>

definition receive_packet :: "dram_controller_c \<Rightarrow> abort + dram_controller_c" where
  "receive_packet s =
     (if IRIS s then
        (case receive_queue s of
           [] \<Rightarrow> Inr s
         | req # rest \<Rightarrow>
             seq (insert_new_req s req)
               (\<lambda>(inserted, s1). Inr (if inserted then s1\<lparr>receive_queue := tl (receive_queue s1)\<rparr> else s1)))
      else Inr s)"

text \<open>
  \<^verbatim>\<open>print_req\<close> (dram.cc 361-388): the content written to \<^verbatim>\<open>bug_detect_dram.out\<close>.
  The per-channel lines print \<^verbatim>\<open>m_data_ready[ii]\<close>, as the source does.
\<close>

definition print_bank :: "dram_controller_c \<Rightarrow> nat \<Rightarrow> abort + bank_line" where
  "print_bank s ii =
     seq (case m_current_list s ii of
            None \<Rightarrow> Inr (- 1)
          | Some c \<Rightarrow> (case m_req (drb_heap s c) of None \<Rightarrow> Inl NULL_deref
                       | Some r \<Rightarrow> Inr (rq_id (req_heap s r))))
       (\<lambda>clist. Inr \<lparr>bl_clist = clist,
           bl_scheduled = (case m_current_list s ii of None \<Rightarrow> 0 | Some c \<Rightarrow> m_scheduled (drb_heap s c)),
           bl_size = int (length (m_buffer s ii)),
           bl_state = (case m_current_list s ii of None \<Rightarrow> None | Some c \<Rightarrow> Some (m_state (drb_heap s c))),
           bl_bank_ready = m_bank_ready s ii, bl_data_ready = m_data_ready s ii,
           bl_data_avail = m_data_avail s ii, bl_time = m_bank_timestamp s ii\<rparr>)"

fun print_banks :: "dram_controller_c \<Rightarrow> nat list \<Rightarrow> abort + bank_line list" where
  "print_banks s [] = Inr []"
| "print_banks s (ii # is) =
     seq (print_bank s ii) (\<lambda>l. seq (print_banks s is) (\<lambda>ls. Inr (l # ls)))"

definition print_req :: "dram_controller_c \<Rightarrow> abort + dump" where
  "print_req s =
     seq (print_banks s [0..<m_num_bank s])
       (\<lambda>ls. Inr \<lparr>dump_cycle = m_simulation_cycle s, dump_total_req = m_total_req s,
                   dump_dbus = map (m_data_ready s) [0..<m_num_channel s], dump_banks = ls\<rparr>)"

text \<open>\<^verbatim>\<open>progress_check\<close> (dram.cc 345-358): after the dump, \<^verbatim>\<open>ASSERT(0)\<close> aborts.\<close>

definition progress_check :: "dram_controller_c \<Rightarrow> abort + dram_controller_c" where
  "progress_check s =
     (let s1 = (if m_total_req s > 0 \<and> m_num_completed_in_last_cycle s = 0
                then s\<lparr>m_starvation_cycle := m_starvation_cycle s + 1\<rparr>
                else s\<lparr>m_starvation_cycle := 0\<rparr>)
      in if m_starvation_cycle s1 \<ge> 5000
         then (case print_req s1 of Inl a \<Rightarrow> Inl a | Inr d \<Rightarrow> Inl (Starvation d))
         else Inr s1)"

text \<open>\<^verbatim>\<open>run_a_cycle\<close> (dram.cc 325-341); the loop after \<^verbatim>\<open>progress_check\<close> only counts
  statistics and the hook \<^verbatim>\<open>on_run_a_cycle\<close> is empty.\<close>

definition run_a_cycle :: "dram_controller_c \<Rightarrow> abort + dram_controller_c" where
  "run_a_cycle s =
     seq (channel_schedule s) (\<lambda>s1. seq (bank_schedule s1) (\<lambda>s2. seq (receive_packet s2) progress_check))"

section \<open>Predicates for the completion pass\<close>

text \<open>What sending fills leaves alone: the entries, the lists of every bank, the
  ready times, the clock and the type of every request.\<close>

definition banks_kept :: "dram_controller_c \<Rightarrow> dram_controller_c \<Rightarrow> bool" where
  "banks_kept s s' \<longleftrightarrow>
     drb_heap s' = drb_heap s \<and> m_buffer s' = m_buffer s \<and>
     m_buffer_free_list s' = m_buffer_free_list s \<and> m_current_list s' = m_current_list s \<and>
     m_data_ready s' = m_data_ready s \<and> noc_oracle s' = noc_oracle s \<and>
     m_simulation_cycle s' = m_simulation_cycle s \<and>
     m_num_bank s' = m_num_bank s \<and> KNOB_DRAM_BUFFER_SIZE s' = KNOB_DRAM_BUFFER_SIZE s \<and>
     (\<forall>r. rq_type (req_heap s' r) = rq_type (req_heap s r))"


definition refused_since :: "dram_controller_c \<Rightarrow> dram_controller_c \<Rightarrow> bool" where
  "refused_since s s' \<longleftrightarrow> (\<exists>k. noc_calls s \<le> k \<and> k < noc_calls s' \<and> \<not> noc_oracle s k)"

text \<open>The relation between the accumulator of the merge loop before and after it has
  run over the pending entries \<open>Is\<close>: the entries added to \<^verbatim>\<open>temp_list\<close> are same-address
  entries of \<open>Is\<close> whose request is a writeback or was accepted by the network.\<close>

definition merge_effect ::
  "nat \<Rightarrow> nat list \<Rightarrow> bool \<times> nat list \<times> dram_controller_c \<Rightarrow> bool \<times> nat list \<times> dram_controller_c \<Rightarrow> bool" where
  "merge_effect c Is a a' \<longleftrightarrow>
     (case a of (n, t, s) \<Rightarrow> case a' of (n', t', s') \<Rightarrow>
        banks_kept s s' \<and> noc_calls s \<le> noc_calls s' \<and> m_total_req s' = m_total_req s \<and>
        (\<exists>ns new. noc_sent s' = noc_sent s @ ns \<and>
           (\<forall>r. rq_state (req_heap s' r) \<noteq> rq_state (req_heap s r) \<longrightarrow> r \<in> set ns) \<and>
           t' = t @ new \<and> mset new \<subseteq># mset Is \<and>
           (\<forall>I \<in> set new. m_addr (drb_heap s I) = m_addr (drb_heap s c) \<and>
              (\<exists>r. m_req (drb_heap s I) = Some r \<and> (rq_type (req_heap s r) = MRT_WB \<or> r \<in> set ns)))) \<and>
        (n' \<longleftrightarrow> n \<or> refused_since s s'))"

text \<open>The effect of one bank's completion step with current entry \<open>c\<close>: \<open>temp\<close> are the
  merged entries, \<open>done\<close> tells whether the current entry was completed, \<open>ns\<close> are the
  requests handed to the network.\<close>

definition completion_effect ::
  "nat \<Rightarrow> nat \<Rightarrow> dram_controller_c \<Rightarrow> dram_controller_c \<Rightarrow> nat list \<Rightarrow> bool \<Rightarrow> nat list \<Rightarrow> bool" where
  "completion_effect ii c s s' temp done ns \<longleftrightarrow>
     mset temp \<subseteq># mset (m_buffer s ii) \<and>
     (refused_since s s' \<longrightarrow> \<not> done) \<and>
     noc_sent s' = noc_sent s @ ns \<and>
     (\<forall>r. rq_state (req_heap s' r) \<noteq> rq_state (req_heap s r) \<longrightarrow> r \<in> set ns) \<and>
     (\<forall>I \<in> set temp. \<exists>r. m_req (drb_heap s I) = Some r \<and>
         (rq_type (req_heap s r) = MRT_WB \<or> r \<in> set ns)) \<and>
     (done \<longrightarrow> (\<exists>r. m_req (drb_heap s c) = Some r \<and> (rq_type (req_heap s r) = MRT_WB \<or> r \<in> set ns))) \<and>
     m_buffer s' = (m_buffer s)(ii := filter (\<lambda>I. I \<notin> set temp) (m_buffer s ii)) \<and>
     m_buffer_free_list s' = (m_buffer_free_list s)
        (ii := m_buffer_free_list s ii @ temp @ (if done then [c] else [])) \<and>
     m_current_list s' = (if done then (m_current_list s)(ii := None) else m_current_list s) \<and>
     m_data_ready s' = (if done then (m_data_ready s)(ii := ULLONG_MAX) else m_data_ready s) \<and>
     (\<forall>p. p \<notin> set temp \<and> (done \<longrightarrow> p \<noteq> c) \<longrightarrow> drb_heap s' p = drb_heap s p) \<and>
     m_num_bank s' = m_num_bank s \<and> KNOB_DRAM_BUFFER_SIZE s' = KNOB_DRAM_BUFFER_SIZE s"


section \<open>Buffer conservation\<close>

text \<open>The entries a bank holds: those of its free list, then the pending ones, then the
  current one when there is one.\<close>

definition bank_entries :: "dram_controller_c \<Rightarrow> nat \<Rightarrow> nat list" where
  "bank_entries s ii =
     m_buffer_free_list s ii @ m_buffer s ii @
     (case m_current_list s ii of None \<Rightarrow> [] | Some c \<Rightarrow> [c])"

text \<open>Every bank holds \<^verbatim>\<open>KNOB_DRAM_BUFFER_SIZE\<close> entries, each of them once.\<close>

definition buffers_conserved :: "dram_controller_c \<Rightarrow> bool" where
  "buffers_conserved s \<longleftrightarrow>
     (\<forall>ii<m_num_bank s. distinct (bank_entries s ii) \<and>
        length (bank_entries s ii) = KNOB_DRAM_BUFFER_SIZE s)"

text \<open>A step that leaves the three places of every bank as they are.\<close>

definition lists_kept :: "dram_controller_c \<Rightarrow> dram_controller_c \<Rightarrow> bool" where
  "lists_kept s s' \<longleftrightarrow>
     m_buffer s' = m_buffer s \<and> m_buffer_free_list s' = m_buffer_free_list s \<and>
     m_current_list s' = m_current_list s \<and> m_num_bank s' = m_num_bank s \<and>
     KNOB_DRAM_BUFFER_SIZE s' = KNOB_DRAM_BUFFER_SIZE s"

section \<open>The starvation watchdog over ticks\<close>







section \<open>Verification\<close>

subsection \<open>Auxiliary facts\<close>

lemma log2_int_power: "log2_int (2 ^ n) = n"
proof (induction n)
  case 0
  show ?case by (simp add: log2_int.simps [of "Suc 0"])
next
  case (Suc n)
  have "log2_int (2 ^ Suc n) = Suc (log2_int (2 ^ Suc n div 2))"
    by (subst log2_int.simps) simp
  with Suc show ?case by simp
qed

lemma demo_log2: "log2_int 2048 = 11" "log2_int 2 = 1" "log2_int 64 = 6" "log2_int 512 = 9"
  using log2_int_power [of 11] log2_int_power [of 1] log2_int_power [of 6] log2_int_power [of 9]
  by simp_all

text \<open>The constructor, run on the demonstration knobs, yields \<open>demo\<close>.\<close>

lemma demo_new: "dram_controller_c_new demo_knobs demo_raw = Inr demo"
  by (simp add: dram_controller_c_new_def demo_knobs_def demo_raw_def demo_def N_BIT_MASK_def
      upt_rec fun_eq_iff ULLONG_MAX_def demo_log2)

lemma c_div_nonneg: "0 \<le> a \<Longrightarrow> 0 < b \<Longrightarrow> c_div a b = a div b"
  by (cases "a = 0") (simp_all add: c_div_def)

lemma c_mod_nonneg: "0 \<le> a \<Longrightarrow> 0 < b \<Longrightarrow> c_mod a b = a mod b"
  by (simp add: c_mod_def c_div_nonneg minus_mult_div_eq_mod)

subsection \<open>Data-bus acquisition\<close>

lemma acquire_data_bus_eq:
  assumes "1 \<le> m_bus_width s"
  shows "acquire_data_bus s ch sz gpu =
     (let avail = m_byte_avail s ch; W = m_bus_width s; now = m_simulation_cycle s;
          release = (if sz < avail then now
                     else now + word_of_int ((if gpu then dram_cycle_gpu s else dram_cycle_cpu s)
                                 ((sz - avail) div W + 1)))
      in Inr (release, s\<lparr>m_byte_avail := (m_byte_avail s)(ch :=
                             if sz < avail then avail - sz else W - (sz - avail) mod W),
                          m_dbus_ready := (m_dbus_ready s)(ch := release)\<rparr>))"
proof (cases "sz < m_byte_avail s ch")
  case True
  then show ?thesis by (simp add: acquire_data_bus_def Let_def)
next
  case False
  with assms have "c_div (sz - m_byte_avail s ch) (m_bus_width s) = (sz - m_byte_avail s ch) div m_bus_width s"
    and "c_mod (sz - m_byte_avail s ch) (m_bus_width s) = (sz - m_byte_avail s ch) mod m_bus_width s"
    by (simp_all add: c_div_nonneg c_mod_nonneg)
  with False assms show ?thesis by (simp add: acquire_data_bus_def Let_def)
qed

text \<open>
  Claim C8.  With a positive bus width \<open>W\<close>, \<open>acquire_data_bus\<close> on a channel with
  \<open>avail\<close> bytes left returns the current cycle and lowers \<open>avail\<close> by the size when
  the size is below \<open>avail\<close>; otherwise it returns the current cycle plus
  \<open>(size - avail) div W + 1\<close> DRAM cycles converted with the GPU or CPU conversion, and
  resets \<open>avail\<close> to \<open>W - (size - avail) mod W\<close>.  In both cases the channel's
  bus-free cycle becomes the returned cycle, and nothing else changes.
\<close>

theorem acquire_data_bus_spec:
  assumes "1 \<le> m_bus_width s"
  shows "acquire_data_bus s ch sz gpu =
     (let avail = m_byte_avail s ch; W = m_bus_width s; now = m_simulation_cycle s;
          release = (if sz < avail then now
                     else now + word_of_int ((if gpu then dram_cycle_gpu s else dram_cycle_cpu s)
                                 ((sz - avail) div W + 1)))
      in Inr (release, s\<lparr>m_byte_avail := (m_byte_avail s)(ch :=
                             if sz < avail then avail - sz else W - (sz - avail) mod W),
                          m_dbus_ready := (m_dbus_ready s)(ch := release)\<rparr>))"
  using assms by (rule acquire_data_bus_eq)

theorem acquire_data_bus_spec_witness:
  "1 \<le> m_bus_width demo \<and>
   (\<exists>s'. acquire_data_bus demo 0 64 False = Inr (32, s') \<and> m_byte_avail s' 0 = 8 \<and> m_dbus_ready s' 0 = 32) \<and>
   (\<exists>s'. acquire_data_bus demo 0 5 True = Inr (0, s') \<and> m_byte_avail s' 0 = 3 \<and> m_dbus_ready s' 0 = 0)"
  using acquire_data_bus_spec [of demo 0 64 False] acquire_data_bus_spec [of demo 0 5 True]
  by (simp add: demo_def demo_raw_def Let_def)

lemma acquire_keeps_bounds:
  assumes ok: "byte_avail_ok s" and sz: "0 \<le> sz" and ch: "ch < m_num_channel s"
  shows "\<exists>t s'. acquire_data_bus s ch sz gpu = Inr (t, s') \<and> byte_avail_ok s'"
proof -
  from ok ch have av: "1 \<le> m_byte_avail s ch" "m_byte_avail s ch \<le> m_bus_width s"
    by (simp_all add: byte_avail_ok_def)
  then have W: "1 \<le> m_bus_width s" by simp
  have m: "0 \<le> (sz - m_byte_avail s ch) mod m_bus_width s"
    "(sz - m_byte_avail s ch) mod m_bus_width s < m_bus_width s"
    using W by simp_all
  have new: "1 \<le> (if sz < m_byte_avail s ch then m_byte_avail s ch - sz
                    else m_bus_width s - (sz - m_byte_avail s ch) mod m_bus_width s)"
    "(if sz < m_byte_avail s ch then m_byte_avail s ch - sz
                    else m_bus_width s - (sz - m_byte_avail s ch) mod m_bus_width s) \<le> m_bus_width s"
  proof -
    show "1 \<le> (if sz < m_byte_avail s ch then m_byte_avail s ch - sz
                    else m_bus_width s - (sz - m_byte_avail s ch) mod m_bus_width s)"
    proof (cases "sz < m_byte_avail s ch")
      case True then show ?thesis by simp
    next
      case False with m show ?thesis by simp
    qed
    show "(if sz < m_byte_avail s ch then m_byte_avail s ch - sz
                    else m_bus_width s - (sz - m_byte_avail s ch) mod m_bus_width s) \<le> m_bus_width s"
    proof (cases "sz < m_byte_avail s ch")
      case True with av sz show ?thesis by simp
    next
      case False with m show ?thesis by simp
    qed
  qed
  show ?thesis
    unfolding acquire_data_bus_eq [OF W] Let_def
    using ok new by (auto simp: byte_avail_ok_def split: if_splits)
qed

text \<open>
  Claim C10.  After construction with a positive bus width, and after every
  \<open>acquire_data_bus\<close> call with a non-negative size on one of the controller's channels,
  \<open>m_byte_avail\<close> of every channel is at least 1 and at most the bus width; the call
  itself always returns.
\<close>

theorem byte_avail_bounds:
  "(1 \<le> KNOB_DRAM_BUS_WIDTH k * KNOB_DRAM_DDR_FACTOR k \<longrightarrow> KNOB_DRAM_NUM_CHANNEL k \<noteq> 0 \<longrightarrow>
      (\<exists>s. dram_controller_c_new k u = Inr s \<and> byte_avail_ok s)) \<and>
   (byte_avail_ok s \<longrightarrow> ch < m_num_channel s \<longrightarrow> 0 \<le> sz \<longrightarrow>
      (\<exists>t s'. acquire_data_bus s ch sz gpu = Inr (t, s') \<and> byte_avail_ok s'))"
  by (simp add: acquire_keeps_bounds) (simp add: dram_controller_c_new_def byte_avail_ok_def)

theorem byte_avail_bounds_witness:
  "byte_avail_ok demo \<and> (\<exists>t s'. acquire_data_bus demo 0 64 False = Inr (t, s') \<and> byte_avail_ok s')"
  using byte_avail_bounds [of demo_knobs demo_raw demo 0 64 False]
  by (simp add: demo_new) (simp add: demo_knobs_def demo_def demo_raw_def)

lemma demo_fields:
  "m_num_bank demo = 2" "m_num_channel demo = 1" "m_num_bank_per_channel demo = 2"
  "m_bus_width demo = 8" "m_buffer demo = (\<lambda>ii. [])"
  "m_buffer_free_list demo = (\<lambda>ii. map (\<lambda>jj. ii * 4 + jj) [0, 1, 2, 3])"
  "m_current_list demo = (\<lambda>ii. None)" "m_current_rid demo = (\<lambda>ii. - 1)"
  "m_data_ready demo = (\<lambda>ii. ULLONG_MAX)" "m_data_avail demo = (\<lambda>ii. ULLONG_MAX)"
  "m_bank_ready demo = (\<lambda>ii. ULLONG_MAX)" "m_bank_timestamp demo = (\<lambda>ii. 0)"
  "m_byte_avail demo = (\<lambda>ii. 8)" "m_dbus_ready demo = (\<lambda>ii. 0)"
  "m_cid_mask demo = 2047" "m_bid_shift demo = 11" "m_bid_mask demo = 1" "m_rid_shift demo = 1"
  "m_bid_xor_shift demo = 15" "m_precharge_latency_cpu demo = 10" "m_activate_latency_cpu demo = 10"
  "m_column_latency_cpu demo = 5" "m_precharge_latency_gpu demo = 6" "m_activate_latency_gpu demo = 6"
  "m_column_latency_gpu demo = 3" "dram_cycle_cpu demo = (\<lambda>c. 4 * c)" "dram_cycle_gpu demo = (\<lambda>c. 2 * c)"
  "m_total_req demo = 0" "m_num_completed_in_last_cycle demo = 0" "m_starvation_cycle demo = 0"
  "m_noc_id demo = 7" "m_policy demo = FCFS" "m_unique_id demo = 0"
  "drb_heap demo = (\<lambda>p. if p < 8 then reset demo_entry else demo_entry)"
  "req_heap demo = (\<lambda>p. demo_req)" "m_simulation_cycle demo = 0"
  "KNOB_DRAM_BANK_XOR_INDEX demo = False" "KNOB_DRAM_MERGE_REQUESTS demo = True"
  "KNOB_DRAM_BUFFER_SIZE demo = 4" "IRIS demo = False" "terminal_node_id demo = 7"
  "dst_router_id demo = (\<lambda>c. c)" "receive_queue demo = []" "pool_freed demo = []"
  "noc_oracle demo = (\<lambda>k. True)" "noc_calls demo = 0" "noc_sent demo = []"
  by (simp_all add: demo_def demo_raw_def)

subsection \<open>Address decoding\<close>

lemma N_BIT_MASK_mask: "N_BIT_MASK n = mask n"
  by (simp add: N_BIT_MASK_def mask_eq_decr_exp)

lemma uint_and_mask: "uint (w AND mask n :: 64 word) = uint w mod 2 ^ n"
proof -
  have "w AND mask n = take_bit n w" by (simp only: take_bit_eq_mask)
  then have "uint (w AND mask n) = take_bit n (uint w)" by (simp only: unsigned_take_bit_eq)
  then show ?thesis by (simp only: take_bit_eq_mod)
qed

lemma uint_drop_bit: "uint (drop_bit n w :: 64 word) = uint w div 2 ^ n"
proof -
  have "unat (drop_bit n w) = drop_bit n (unat w)" by (rule unat_drop_bit_eq)
  also have "\<dots> = unat w div 2 ^ n" by (rule drop_bit_eq_div)
  finally have "int (unat (drop_bit n w)) = int (unat w) div 2 ^ n" by (simp add: zdiv_int)
  then show ?thesis by (simp only: uint_nat)
qed

lemma c_int_small: "uint w < 2 ^ 31 \<Longrightarrow> c_int w = uint w"
proof -
  assume a: "uint w < 2 ^ 31"
  have "- (2 ^ 31) \<le> (0::int)" by simp
  also have "0 \<le> uint w" by simp
  finally show ?thesis unfolding c_int_def using a by (rule signed_take_bit_int_eq_self)
qed

lemma c_int_mod: "n \<le> 30 \<Longrightarrow> c_int (w AND mask n) = uint w mod 2 ^ n"
proof -
  assume n: "n \<le> 30"
  have "uint w mod 2 ^ n < (2::int) ^ n" by simp
  also have "(2::int) ^ n \<le> 2 ^ 30" using n by (intro power_increasing) simp_all
  finally have "uint (w AND mask n) < 2 ^ 31" by (simp only: uint_and_mask) simp
  then show ?thesis by (simp only: c_int_small uint_and_mask)
qed

text \<open>What the parsing computes for power-of-two knobs, for every address: the row is
  the low 32 bits of \<open>A div (R * B)\<close>, read as a signed number.\<close>

lemma address_parsing_new:
  assumes new: "dram_controller_c_new k u = Inr s"
    and R: "KNOB_DRAM_ROWBUFFER_SIZE k = 2 ^ r" and B: "KNOB_DRAM_NUM_BANKS k = 2 ^ b"
    and L: "KNOB_L3_LINE_SIZE k = 2 ^ l" and r: "r \<le> 30" and b: "b \<le> 30"
  shows "address_parsing s A =
           (uint A div (2 ^ l * 512) mod 2 ^ b, uint A mod 2 ^ r, uint A div 2 ^ r mod 2 ^ b,
            signed_take_bit 31 (uint A div (2 ^ r * 2 ^ b)))"
proof -
  from new have s: "m_cid_mask s = mask r" "m_bid_shift s = r" "m_bid_mask s = mask b"
    "m_rid_shift s = b" "m_bid_xor_shift s = l + 9"
    using log2_int_power [of 9]
    by (auto simp: dram_controller_c_new_def R B L log2_int_power N_BIT_MASK_mask split: if_splits)
  have x: "uint (drop_bit (l + 9) A) = uint A div (2 ^ l * 512)"
    by (simp only: uint_drop_bit power_add) simp
  have rid: "uint (drop_bit b (drop_bit r A)) = uint A div (2 ^ r * 2 ^ b)"
    by (simp only: uint_drop_bit zdiv_zmult2_eq) (simp add: zdiv_zmult2_eq)
  have 1: "c_int (drop_bit (l + 9) A AND mask b) = uint A div (2 ^ l * 512) mod 2 ^ b"
    by (simp only: c_int_mod [OF b] x)
  have 2: "c_int (A AND mask r) = uint A mod 2 ^ r"
    by (simp only: c_int_mod [OF r])
  have 3: "c_int (drop_bit r A AND mask b) = uint A div 2 ^ r mod 2 ^ b"
    by (simp only: c_int_mod [OF b] uint_drop_bit)
  have 4: "c_int (drop_bit b (drop_bit r A)) = signed_take_bit 31 (uint A div (2 ^ r * 2 ^ b))"
    by (simp only: c_int_def rid)
  show ?thesis
    unfolding address_parsing_def s Let_def by (simp only: 1 2 3 4)
qed

text \<open>
  Claim C2, amended.  Let the controller be constructed with row-buffer size
  \<open>R = 2 ^ r\<close>, \<open>B = 2 ^ b\<close> banks and line size \<open>L = 2 ^ l\<close> (\<open>r, b \<le> 30\<close>, as the knobs
  are C ints).  For every address \<open>A\<close> whose row number \<open>A div (R * B)\<close> is below
  \<open>2 ^ 31\<close>, the decoded column is \<open>A mod R\<close>, the decoded row is \<open>A div (R * B)\<close>, the
  decoded bank is \<open>(A div R) mod B\<close> with the XOR knob off and
  \<open>((A div R) mod B) XOR ((A div (L * 512)) mod B)\<close> with it on.
\<close>

theorem address_decoding:
  assumes "dram_controller_c_new k u = Inr s"
    and "KNOB_DRAM_ROWBUFFER_SIZE k = 2 ^ r" and "KNOB_DRAM_NUM_BANKS k = 2 ^ b"
    and "KNOB_L3_LINE_SIZE k = 2 ^ l" and "r \<le> 30" and "b \<le> 30"
    and row: "uint A div (2 ^ r * 2 ^ b) < 2 ^ 31"
  shows "address_parsing s A =
           (uint A div (2 ^ l * 512) mod 2 ^ b, uint A mod 2 ^ r, uint A div 2 ^ r mod 2 ^ b,
            uint A div (2 ^ r * 2 ^ b)) \<and>
         permute_bank s (uint A div 2 ^ r mod 2 ^ b) (uint A div (2 ^ l * 512) mod 2 ^ b) =
           (if KNOB_DRAM_BANK_XOR_INDEX s
            then (uint A div 2 ^ r mod 2 ^ b) XOR (uint A div (2 ^ l * 512) mod 2 ^ b)
            else uint A div 2 ^ r mod 2 ^ b)"
proof -
  have "- (2 ^ 31) \<le> (0::int)" by simp
  also have "0 \<le> uint A div (2 ^ r * 2 ^ b)" by (simp add: pos_imp_zdiv_nonneg_iff)
  finally have "signed_take_bit 31 (uint A div (2 ^ r * 2 ^ b)) = uint A div (2 ^ r * 2 ^ b)"
    using row by (rule signed_take_bit_int_eq_self)
  with address_parsing_new [OF assms(1-6), of A] show ?thesis
    by (simp add: permute_bank_def)
qed

theorem address_decoding_witness:
  "address_parsing demo 6208 = (0, 64, 1, 1) \<and> permute_bank demo 1 0 = 1"
  using address_decoding [OF demo_new, of 11 1 6 6208]
  by (simp add: demo_knobs_def demo_fields)

text \<open>The claim as stated fails for large addresses: for \<open>A = 2 ^ 44\<close>, two banks and
  2 KiB rows, \<open>A div (R * B) = 2 ^ 32\<close> but the decoded row is 0, and the request is
  queued with that row.\<close>

theorem address_decoding_row_counterexample:
  "snd (snd (snd (address_parsing demo_far (rq_addr (req_heap demo_far 0))))) = 0 \<and>
   uint (rq_addr (req_heap demo_far 0)) div (2048 * 2) = 4294967296 \<and>
   (case insert_new_req demo_far 0 of
      Inr (True, s') \<Rightarrow> m_buffer s' 0 = [0] \<and> m_rid (drb_heap s' 0) = 0
    | _ \<Rightarrow> False)"
  by (simp add: insert_new_req_def address_parsing_def demo_far_def demo_fields permute_bank_def
        seq_def insert_req_in_drb_def drb_set_def Let_def demo_req_def c_int_def)

subsection \<open>Concrete runs\<close>

lemmas run_defs = insert_new_req_def address_parsing_def permute_bank_def seq_def
  insert_req_in_drb_def drb_set_def Let_def c_int_def bank_schedule_new_def bank_new_def
  schedule_def channel_schedule_cmd_def channel_cmd_def select_cmd_def cmd_issue_def
  channel_banks_def cmd_ready_def upt_rec dram_req_priority_def

lemma demo_queued_run: "insert_new_req (demo\<lparr>m_simulation_cycle := 5\<rparr>) 0 = Inr (True, demo_queued)"
  by (simp add: run_defs demo_fields demo_queued_def demo_entry0_def reset_def demo_entry_def demo_req_def)
    ((rule dram_controller_c.equality; simp add: demo_fields fun_eq_iff)?)

lemma demo_selected_run:
  "bank_schedule_new demo_queued = Inr (demo_selected\<lparr>m_simulation_cycle := 5\<rparr>)"
  by (simp add: run_defs demo_fields demo_queued_def demo_selected_def)
    ((rule dram_controller_c.equality; simp add: demo_fields fun_eq_iff)?)

lemma demo_selected_fields:
  "m_num_channel demo_selected = 1" "m_num_bank_per_channel demo_selected = 2"
  "m_num_bank demo_selected = 2"
  "m_current_list demo_selected = (\<lambda>ii. None)(0 := Some 0)"
  "m_current_rid demo_selected = (\<lambda>ii. - 1)"
  "m_bank_timestamp demo_selected = (\<lambda>ii. 0)(0 := 5)"
  "m_bank_ready demo_selected = (\<lambda>ii. ULLONG_MAX)"
  "m_data_avail demo_selected = (\<lambda>ii. ULLONG_MAX)"
  "m_simulation_cycle demo_selected = 6"
  "drb_heap demo_selected 0 = demo_entry0\<lparr>m_state := DRAM_CMD, m_scheduled := 5\<rparr>"
  "req_heap demo_selected 0 = demo_req\<lparr>rq_state := MEM_DRAM_START\<rparr>"
  "m_activate_latency_cpu demo_selected = 10" "m_activate_latency_gpu demo_selected = 6"
  "m_buffer demo_selected = (\<lambda>ii. [])"
  by (simp_all add: demo_selected_def demo_queued_def demo_fields fun_eq_iff)

subsection \<open>Channel command scheduler\<close>

lemma select_cmd_Some:
  assumes "select_cmd s ii = Some bank"
  shows "bank \<in> set (channel_banks s ii) \<and> cmd_ready s bank"
  using oldest_bank_member [of "cmd_ready s" "m_bank_timestamp s" "channel_banks s ii" "(ULLONG_MAX, None)" bank] assms
  by (simp add: select_cmd_def)

text \<open>
  Claim C1.  When the command scheduler of channel \<open>ii\<close> selects bank \<open>bank\<close>, whose
  current entry \<open>e\<close> (in state CMD) carries request \<open>r\<close>, the iteration succeeds and:
  with no open row (\<open>m_current_rid = -1\<close>) the open row becomes the entry's row, the
  entry goes to CMD_WAIT, \<open>m_bank_ready\<close> is the current cycle plus the activate latency
  (GPU value for a GPU request, else CPU) and \<open>m_data_avail\<close> is \<^verbatim>\<open>ULLONG_MAX\<close>; with
  the entry's row open the entry goes to DATA, \<open>m_bank_ready\<close> is the current cycle plus
  the column latency and \<open>m_data_avail\<close> equals it; otherwise the open row is cleared,
  the entry goes to CMD_WAIT, \<open>m_bank_ready\<close> is the current cycle plus the precharge
  latency and \<open>m_data_avail\<close> is \<^verbatim>\<open>ULLONG_MAX\<close>.
\<close>

theorem channel_cmd_issue:
  assumes sel: "select_cmd s ii = Some bank"
    and cur: "m_current_list s bank = Some e"
    and req: "m_req (drb_heap s e) = Some r"
  shows "\<exists>s'. channel_cmd ii s = Inr s' \<and> m_state (drb_heap s e) = DRAM_CMD \<and>
     (let now = m_simulation_cycle s; gpu = rq_ptx (req_heap s r); row = m_rid (drb_heap s e) in
      if m_current_rid s bank = - 1 then
        m_current_rid s' bank = row \<and> m_state (drb_heap s' e) = DRAM_CMD_WAIT \<and>
        m_bank_ready s' bank = now + word_of_int (if gpu then m_activate_latency_gpu s else m_activate_latency_cpu s) \<and>
        m_data_avail s' bank = ULLONG_MAX
      else if m_current_rid s bank = row then
        m_current_rid s' bank = row \<and> m_state (drb_heap s' e) = DRAM_DATA \<and>
        m_bank_ready s' bank = now + word_of_int (if gpu then m_column_latency_gpu s else m_column_latency_cpu s) \<and>
        m_data_avail s' bank = m_bank_ready s' bank
      else
        m_current_rid s' bank = - 1 \<and> m_state (drb_heap s' e) = DRAM_CMD_WAIT \<and>
        m_bank_ready s' bank = now + word_of_int (if gpu then m_precharge_latency_gpu s else m_precharge_latency_cpu s) \<and>
        m_data_avail s' bank = ULLONG_MAX)"
proof -
  from select_cmd_Some [OF sel] cur have st: "m_state (drb_heap s e) = DRAM_CMD"
    by (simp add: cmd_ready_def)
  show ?thesis
    by (simp add: channel_cmd_def sel cmd_issue_def cur st req Let_def)
qed

theorem channel_cmd_issue_witness:
  "select_cmd demo_selected 0 = Some 0 \<and> m_current_list demo_selected 0 = Some 0 \<and>
   m_req (drb_heap demo_selected 0) = Some 0 \<and>
   (\<exists>s'. channel_cmd 0 demo_selected = Inr s' \<and> m_current_rid s' 0 = 0 \<and>
         m_state (drb_heap s' 0) = DRAM_CMD_WAIT \<and> m_bank_ready s' 0 = 16 \<and>
         m_data_avail s' 0 = ULLONG_MAX)"
proof -
  have sel: "select_cmd demo_selected 0 = Some 0"
    by (simp add: select_cmd_def channel_banks_def cmd_ready_def demo_selected_fields upt_rec
        demo_entry0_def ULLONG_MAX_def)
  have cur: "m_current_list demo_selected 0 = Some 0" by (simp add: demo_selected_fields)
  have req: "m_req (drb_heap demo_selected 0) = Some 0"
    by (simp add: demo_selected_fields demo_entry0_def)
  from channel_cmd_issue [OF sel cur req] sel cur req show ?thesis
    by (simp add: demo_selected_fields demo_entry0_def demo_req_def Let_def)
qed

subsection \<open>The command timestamp\<close>

lemma for_each_keeps:
  assumes step: "\<And>i t t'. body i t = Inr t' \<Longrightarrow> f t' = f t"
  shows "for_each is body s = Inr s' \<Longrightarrow> f s' = f s"
proof (induction "is" arbitrary: s)
  case Nil
  then show ?case by simp
next
  case (Cons i "is")
  then show ?case by (auto simp: seq_def split: sum.splits dest: step)
qed

lemma cmd_issue_timestamp: "cmd_issue s bank = Inr s' \<Longrightarrow> m_bank_timestamp s' = m_bank_timestamp s"
  by (auto simp: cmd_issue_def Let_def split: option.splits if_splits)

lemma channel_cmd_timestamp: "channel_cmd ii s = Inr s' \<Longrightarrow> m_bank_timestamp s' = m_bank_timestamp s"
  by (auto simp: channel_cmd_def split: option.splits dest: cmd_issue_timestamp)

lemma channel_schedule_cmd_timestamp:
  "channel_schedule_cmd s = Inr s' \<Longrightarrow> m_bank_timestamp s' = m_bank_timestamp s"
  unfolding channel_schedule_cmd_def
  by (rule for_each_keeps [where f = m_bank_timestamp]) (rule channel_cmd_timestamp)

lemma schedule_frame:
  assumes "schedule s ii = Inr (entry, s1)"
  shows "\<exists>buf. s1 = s\<lparr>m_buffer := (m_buffer s)(ii := buf)\<rparr> \<and> buf = entry # tl buf \<and>
           buf = (case m_policy s of FCFS \<Rightarrow> m_buffer s ii
                  | FRFCFS \<Rightarrow> list_sort (sort_func s) (m_buffer s ii))"
proof (cases "m_policy s")
  case FCFS
  with assms show ?thesis
    by (intro exI [of _ "m_buffer s ii"]) (auto simp: schedule_def split: list.splits)
next
  case FRFCFS
  with assms show ?thesis
    by (intro exI [of _ "list_sort (sort_func s) (m_buffer s ii)"])
       (auto simp: schedule_def Let_def split: list.splits if_splits)
qed

lemma bank_new_timestamp:
  assumes "bank_new ii s = Inr t"
  shows "m_bank_timestamp t =
           (if enters_cmd s ii then (m_bank_timestamp s)(ii := m_simulation_cycle s)
            else m_bank_timestamp s) \<and>
         (enters_cmd s ii \<longrightarrow>
            (\<exists>e. m_current_list t ii = Some e \<and> m_state (drb_heap t e) = DRAM_CMD))"
proof (cases "m_current_list s ii")
  case None
  show ?thesis
  proof (cases "m_buffer s ii = []")
    case True
    with None assms show ?thesis by (simp add: bank_new_def enters_cmd_def)
  next
    case False
    with None assms obtain entry s1 where sch: "schedule s ii = Inr (entry, s1)"
      by (auto simp: bank_new_def seq_def split: sum.splits)
    from schedule_frame [OF sch]
    have "m_bank_timestamp s1 = m_bank_timestamp s" "m_simulation_cycle s1 = m_simulation_cycle s"
      by auto
    with None False assms sch show ?thesis
      by (auto simp: bank_new_def seq_def enters_cmd_def Let_def)
  qed
next
  case (Some e)
  with assms show ?thesis
    by (auto simp: bank_new_def enters_cmd_def split: if_splits)
qed

text \<open>
  Claim C9, amended.  Issuing a sub-command does not touch \<open>m_bank_timestamp\<close>:
  \<^verbatim>\<open>channel_schedule_cmd\<close> leaves the timestamp of every bank as it was.  The timestamp
  of bank \<open>ii\<close> is set to the current cycle by \<^verbatim>\<open>bank_schedule_new\<close>, exactly when
  the bank's entry enters state CMD (a new request is selected, or the bank is re-armed
  after CMD_WAIT); so at issue time it holds the cycle at which the entry became ready
  for the command.
\<close>

theorem timestamp_set_on_entering_cmd:
  "(channel_schedule_cmd s = Inr s' \<longrightarrow> m_bank_timestamp s' = m_bank_timestamp s) \<and>
   (bank_new ii u = Inr t \<longrightarrow>
      m_bank_timestamp t =
        (if enters_cmd u ii then (m_bank_timestamp u)(ii := m_simulation_cycle u)
         else m_bank_timestamp u) \<and>
      (enters_cmd u ii \<longrightarrow>
         (\<exists>e. m_current_list t ii = Some e \<and> m_state (drb_heap t e) = DRAM_CMD)))"
  using channel_schedule_cmd_timestamp [of s s'] bank_new_timestamp [of ii u t] by blast

lemma channel_schedule_cmd_demo:
  "\<exists>s'. channel_schedule_cmd demo_selected = Inr s' \<and> m_bank_ready s' 0 = 16 \<and> m_current_rid s' 0 = 0"
  by (simp add: channel_schedule_cmd_def channel_cmd_def select_cmd_def channel_banks_def
      cmd_ready_def cmd_issue_def demo_selected_fields upt_rec demo_entry0_def ULLONG_MAX_def
      seq_def Let_def demo_req_def)

theorem timestamp_set_on_entering_cmd_witness:
  "(\<exists>s'. channel_schedule_cmd demo_selected = Inr s' \<and> m_bank_timestamp s' 0 = 5) \<and>
   enters_cmd demo_queued 0 \<and>
   (\<exists>t. bank_new 0 demo_queued = Inr t \<and> m_bank_timestamp t 0 = 5 \<and> m_current_list t 0 = Some 0 \<and>
        m_state (drb_heap t 0) = DRAM_CMD)"
proof -
  obtain s' where 1: "channel_schedule_cmd demo_selected = Inr s'"
    using channel_schedule_cmd_demo by blast
  have 2: "enters_cmd demo_queued 0"
    by (simp add: enters_cmd_def demo_queued_def demo_fields)
  obtain t where 3: "bank_new 0 demo_queued = Inr t" "m_current_list t 0 = Some 0"
    by (simp add: run_defs demo_queued_def demo_fields)
  from timestamp_set_on_entering_cmd [where s = demo_selected and s' = s' and ii = 0 and u = demo_queued and t = t] 1 2 3
  show ?thesis by (simp add: demo_selected_fields demo_queued_def demo_fields)
qed

text \<open>The claim as stated fails: at cycle 6 the scheduler issues an ACTIVATE on bank 0
  (its ready time becomes 16 and row 0 is opened) and the bank's timestamp stays 5.\<close>

theorem timestamp_on_issue_counterexample:
  "m_simulation_cycle demo_selected = 6 \<and> select_cmd demo_selected 0 = Some 0 \<and>
   (case channel_schedule_cmd demo_selected of
      Inr s' \<Rightarrow> m_bank_ready s' 0 = 6 + 10 \<and> m_current_rid s' 0 = 0 \<and> m_bank_timestamp s' 0 = 5
    | Inl a \<Rightarrow> False)"
  by (simp add: channel_schedule_cmd_def channel_cmd_def select_cmd_def channel_banks_def
      cmd_ready_def cmd_issue_def demo_selected_fields upt_rec demo_entry0_def ULLONG_MAX_def
      seq_def Let_def demo_req_def)

subsection \<open>Scheduling policies\<close>

lemma sort_insert_insort_key:
  assumes "\<forall>y \<in> set ys. lt y x \<longleftrightarrow> key y < (key x :: nat)"
  shows "sort_insert lt x ys = insort_key key x ys"
  using assms by (induction ys) auto

lemma list_sort_sort_key:
  assumes "\<forall>a \<in> set xs. \<forall>b \<in> set xs. lt a b \<longleftrightarrow> key a < (key b :: nat)"
  shows "list_sort lt xs = sort_key key xs"
  using assms
proof (induction xs)
  case Nil
  show ?case by (simp add: list_sort_def)
next
  case (Cons x xs)
  then have IH: "list_sort lt xs = sort_key key xs" by simp
  have "sort_insert lt x (sort_key key xs) = insort_key key x (sort_key key xs)"
    using Cons.prems by (intro sort_insert_insort_key) simp
  with IH show ?case by (simp add: list_sort_def)
qed

lemma sort_func_key:
  assumes "m_current_rid s (nat (m_bid (drb_heap s a))) = cur"
  shows "sort_func s a b \<longleftrightarrow> frfcfs_key s cur a < frfcfs_key s cur b"
proof -
  have a: "unat (m_timestamp (drb_heap s a)) < 2 ^ 64" and b: "unat (m_timestamp (drb_heap s b)) < 2 ^ 64"
    using unsigned_less [of "m_timestamp (drb_heap s a)", where ?'a = nat]
      unsigned_less [of "m_timestamp (drb_heap s b)", where ?'a = nat] by simp_all
  show ?thesis
    using a b by (auto simp: sort_func_def frfcfs_key_def assms Let_def word_less_nat_alt)
qed

lemma sort_func_cases:
  "sort_func s a b \<longleftrightarrow>
     (let open_row = m_current_rid s (nat (m_bid (drb_heap s a))) in
      if is_prefetch s a \<noteq> is_prefetch s b then is_prefetch s b
      else if (m_rid (drb_heap s a) = open_row) \<noteq> (m_rid (drb_heap s b) = open_row)
           then m_rid (drb_heap s a) = open_row
      else m_timestamp (drb_heap s a) < m_timestamp (drb_heap s b))"
  by (auto simp: sort_func_def Let_def)

lemma frfcfs_sorted:
  assumes bid: "\<forall>p \<in> set xs. m_bid (drb_heap s p) = int ii"
  defines "ys \<equiv> list_sort (sort_func s) xs"
  shows "mset ys = mset xs"
    and "sorted_wrt (\<lambda>a b. \<not> sort_func s b a) ys"
    and "\<forall>x \<in> set xs. filter (\<lambda>p. \<not> sort_func s p x \<and> \<not> sort_func s x p) ys =
                       filter (\<lambda>p. \<not> sort_func s p x \<and> \<not> sort_func s x p) xs"
proof -
  let ?key = "frfcfs_key s (m_current_rid s ii)"
  have lt: "sort_func s a b \<longleftrightarrow> ?key a < ?key b" if "a \<in> set xs" for a b
    using that bid by (intro sort_func_key) simp
  then have ys: "ys = sort_key ?key xs"
    unfolding ys_def by (intro list_sort_sort_key) simp
  show "mset ys = mset xs" by (simp add: ys)
  have "sorted (map ?key ys)" by (simp add: ys)
  then have "sorted_wrt (\<lambda>a b. ?key a \<le> ?key b) ys" by (simp add: sorted_map)
  then show "sorted_wrt (\<lambda>a b. \<not> sort_func s b a) ys"
    by (rule sorted_wrt_mono_rel [rotated]) (simp add: lt ys)
  show "\<forall>x \<in> set xs. filter (\<lambda>p. \<not> sort_func s p x \<and> \<not> sort_func s x p) ys =
                       filter (\<lambda>p. \<not> sort_func s p x \<and> \<not> sort_func s x p) xs"
  proof
    fix x assume x: "x \<in> set xs"
    have "filter (\<lambda>p. \<not> sort_func s p x \<and> \<not> sort_func s x p) ys = filter (\<lambda>p. ?key p = ?key x) ys"
      by (rule filter_cong) (auto simp: lt x ys)
    also have "\<dots> = filter (\<lambda>p. ?key p = ?key x) xs" by (simp add: ys sort_key_stable)
    also have "\<dots> = filter (\<lambda>p. \<not> sort_func s p x \<and> \<not> sort_func s x p) xs"
      by (rule filter_cong) (auto simp: lt x)
    finally show "filter (\<lambda>p. \<not> sort_func s p x \<and> \<not> sort_func s x p) ys =
                       filter (\<lambda>p. \<not> sort_func s p x \<and> \<not> sort_func s x p) xs" .
  qed
qed

text \<open>
  Claim C5.  The comparator of FR-FCFS ranks a demand entry before a prefetch (DPRF)
  entry, otherwise an entry for the open row of the bank before one for another row,
  otherwise the entry with the smaller insert time.  On a non-empty pending list whose
  entries belong to the bank, FCFS returns the front and leaves the list alone; FR-FCFS
  replaces the list by its stable sort with the comparator (a permutation in which no
  entry is outranked by a later one and entries of equal rank keep their order) and
  returns the new front.
\<close>

theorem schedule_policies:
  assumes ne: "m_buffer s ii \<noteq> []"
    and req: "\<forall>p \<in> set (m_buffer s ii). m_req (drb_heap s p) \<noteq> None"
    and bid: "\<forall>p \<in> set (m_buffer s ii). m_bid (drb_heap s p) = int ii"
  shows "(\<forall>a b. sort_func s a b \<longleftrightarrow>
            (let open_row = m_current_rid s (nat (m_bid (drb_heap s a))) in
             if is_prefetch s a \<noteq> is_prefetch s b then is_prefetch s b
             else if (m_rid (drb_heap s a) = open_row) \<noteq> (m_rid (drb_heap s b) = open_row)
                  then m_rid (drb_heap s a) = open_row
             else m_timestamp (drb_heap s a) < m_timestamp (drb_heap s b))) \<and>
         (m_policy s = FCFS \<longrightarrow> schedule s ii = Inr (hd (m_buffer s ii), s)) \<and>
         (m_policy s = FRFCFS \<longrightarrow>
            (\<exists>sorted. schedule s ii = Inr (hd sorted, s\<lparr>m_buffer := (m_buffer s)(ii := sorted)\<rparr>) \<and>
               mset sorted = mset (m_buffer s ii) \<and>
               sorted_wrt (\<lambda>a b. \<not> sort_func s b a) sorted \<and>
               (\<forall>x \<in> set (m_buffer s ii).
                   filter (\<lambda>p. \<not> sort_func s p x \<and> \<not> sort_func s x p) sorted =
                   filter (\<lambda>p. \<not> sort_func s p x \<and> \<not> sort_func s x p) (m_buffer s ii))))"
proof (intro conjI impI)
  show "\<forall>a b. sort_func s a b \<longleftrightarrow>
            (let open_row = m_current_rid s (nat (m_bid (drb_heap s a))) in
             if is_prefetch s a \<noteq> is_prefetch s b then is_prefetch s b
             else if (m_rid (drb_heap s a) = open_row) \<noteq> (m_rid (drb_heap s b) = open_row)
                  then m_rid (drb_heap s a) = open_row
             else m_timestamp (drb_heap s a) < m_timestamp (drb_heap s b))"
    using sort_func_cases by blast
next
  assume "m_policy s = FCFS"
  with ne show "schedule s ii = Inr (hd (m_buffer s ii), s)"
    by (cases "m_buffer s ii") (simp_all add: schedule_def)
next
  assume pol: "m_policy s = FRFCFS"
  let ?ys = "list_sort (sort_func s) (m_buffer s ii)"
  note srt = frfcfs_sorted [OF bid]
  from srt(1) ne have "?ys \<noteq> []" by (metis mset_zero_iff)
  then obtain y ys where ys: "?ys = y # ys" by (cases ?ys) auto
  from req have "schedule s ii = Inr (hd ?ys, s\<lparr>m_buffer := (m_buffer s)(ii := ?ys)\<rparr>)"
    by (simp add: schedule_def pol Let_def ys)
  with srt show "\<exists>sorted. schedule s ii = Inr (hd sorted, s\<lparr>m_buffer := (m_buffer s)(ii := sorted)\<rparr>) \<and>
               mset sorted = mset (m_buffer s ii) \<and>
               sorted_wrt (\<lambda>a b. \<not> sort_func s b a) sorted \<and>
               (\<forall>x \<in> set (m_buffer s ii).
                   filter (\<lambda>p. \<not> sort_func s p x \<and> \<not> sort_func s x p) sorted =
                   filter (\<lambda>p. \<not> sort_func s p x \<and> \<not> sort_func s x p) (m_buffer s ii))"
    by blast
qed

lemma demo_rows_fields:
  "m_policy (demo_rows pol) = pol" "m_buffer (demo_rows pol) 0 = [0, 1]"
  "m_current_rid (demo_rows pol) 0 = 7"
  "drb_heap (demo_rows pol) 0 = demo_entry0\<lparr>m_addr := 0x3000, m_rid := 3, m_timestamp := 1\<rparr>"
  "drb_heap (demo_rows pol) (Suc 0) =
     demo_entry0\<lparr>m_id := 1, m_addr := 0x7000, m_rid := 7, m_req := Some 1, m_timestamp := 2\<rparr>"
  "req_heap (demo_rows pol) 0 = demo_req\<lparr>rq_addr := 0x3000, rq_state := MEM_DRAM_START\<rparr>"
  "req_heap (demo_rows pol) (Suc 0) = demo_req\<lparr>rq_id := 1, rq_addr := 0x7000, rq_state := MEM_DRAM_START\<rparr>"
  by (simp_all add: demo_rows_def demo_fields)

text \<open>The example of the claim: with row 7 open and pending \<open>[{row 3, t = 1}, {row 7, t = 2}]\<close>,
  FR-FCFS selects the entry queued at \<open>t = 2\<close> (and moves it to the front), FCFS the
  one queued at \<open>t = 1\<close>.\<close>

theorem schedule_policies_witness:
  "m_buffer (demo_rows FRFCFS) 0 = [0, 1] \<and> m_current_rid (demo_rows FRFCFS) 0 = 7 \<and>
   m_rid (drb_heap (demo_rows FRFCFS) 0) = 3 \<and> m_timestamp (drb_heap (demo_rows FRFCFS) 0) = 1 \<and>
   m_rid (drb_heap (demo_rows FRFCFS) 1) = 7 \<and> m_timestamp (drb_heap (demo_rows FRFCFS) 1) = 2 \<and>
   schedule (demo_rows FRFCFS) 0 =
     Inr (1, (demo_rows FRFCFS)\<lparr>m_buffer := (m_buffer (demo_rows FRFCFS))(0 := [1, 0])\<rparr>) \<and>
   schedule (demo_rows FCFS) 0 = Inr (0, demo_rows FCFS)"
proof -
  have ne: "m_buffer (demo_rows pol) 0 \<noteq> []" for pol by (simp add: demo_rows_fields)
  have req: "\<forall>p \<in> set (m_buffer (demo_rows pol) 0). m_req (drb_heap (demo_rows pol) p) \<noteq> None" for pol
    by (simp add: demo_rows_fields demo_entry0_def)
  have bid: "\<forall>p \<in> set (m_buffer (demo_rows pol) 0). m_bid (drb_heap (demo_rows pol) p) = int 0" for pol
    by (simp add: demo_rows_fields demo_entry0_def)
  have ev: "schedule (demo_rows FRFCFS) 0 =
     Inr (1, (demo_rows FRFCFS)\<lparr>m_buffer := (m_buffer (demo_rows FRFCFS))(0 := [1, 0])\<rparr>)"
    by (simp add: schedule_def list_sort_def sort_func_def is_prefetch_def demo_rows_fields
        demo_entry0_def demo_req_def Let_def)
  from schedule_policies [OF ne req bid, of FCFS, THEN conjunct2, THEN conjunct1] ev
  show ?thesis
    by (simp add: demo_rows_fields demo_entry0_def)
qed

subsection \<open>Ingress and prefetch flush\<close>

lemma collect_prefetch_eq:
  assumes "\<forall>I \<in> set buf. m_req (drb_heap s I) \<noteq> None"
  shows "collect_prefetch s buf = Inr (filter (is_prefetch s) buf)"
  using assms by (induction buf) (auto simp: seq_def is_prefetch_def)

lemma flush_loop_eq:
  assumes "\<forall>I \<in> set ds. m_req (drb_heap s I) \<noteq> None"
  shows "for_each ds (flush_one bid) s =
     Inr (s\<lparr>pool_freed := pool_freed s @ map (\<lambda>I. the (m_req (drb_heap s I))) ds,
            m_buffer_free_list := (m_buffer_free_list s)(bid := m_buffer_free_list s bid @ ds),
            m_buffer := (m_buffer s)(bid := filter (\<lambda>I. I \<notin> set ds) (m_buffer s bid)),
            m_total_req := m_total_req s - int (length ds)\<rparr>)"
  using assms
proof (induction ds arbitrary: s)
  case Nil
  show ?case by simp
next
  case (Cons I ds)
  from Cons.prems obtain r where r: "m_req (drb_heap s I) = Some r" by auto
  let ?s1 = "s\<lparr>pool_freed := pool_freed s @ [r],
                m_buffer_free_list := (m_buffer_free_list s)(bid := m_buffer_free_list s bid @ [I]),
                m_buffer := (m_buffer s)(bid := removeAll I (m_buffer s bid)),
                m_total_req := m_total_req s - 1\<rparr>"
  have one: "flush_one bid I s = Inr ?s1" by (simp add: flush_one_def r)
  have "\<forall>I \<in> set ds. m_req (drb_heap ?s1 I) \<noteq> None" using Cons.prems by simp
  note IH = Cons.IH [OF this]
  have flt: "filter (\<lambda>I. I \<notin> set ds) (removeAll I (m_buffer s bid)) =
             filter (\<lambda>J. J \<noteq> I \<and> J \<notin> set ds) (m_buffer s bid)"
    by (simp add: removeAll_filter_not_eq conj_commute) (metis)
  show ?case
    by (simp add: one seq_def IH r)
      (rule dram_controller_c.equality; simp add: fun_eq_iff flt)
qed


lemma flush_prefetch_eq:
  assumes nn: "\<forall>I \<in> set (m_buffer s bid). m_req (drb_heap s I) \<noteq> None"
  shows "flush_prefetch s bid =
     Inr (s\<lparr>pool_freed := pool_freed s @
                 map (\<lambda>I. the (m_req (drb_heap s I))) (filter (is_prefetch s) (m_buffer s bid)),
            m_buffer_free_list := (m_buffer_free_list s)
                 (bid := m_buffer_free_list s bid @ filter (is_prefetch s) (m_buffer s bid)),
            m_buffer := (m_buffer s)(bid := filter (\<lambda>I. \<not> is_prefetch s I) (m_buffer s bid)),
            m_total_req := m_total_req s - int (length (filter (is_prefetch s) (m_buffer s bid)))\<rparr>)"
proof -
  have "\<forall>I \<in> set (filter (is_prefetch s) (m_buffer s bid)). m_req (drb_heap s I) \<noteq> None"
    using nn by simp
  note loop = flush_loop_eq [OF this, of bid]
  have flt: "filter (\<lambda>I. I \<in> set (m_buffer s bid) \<longrightarrow> \<not> is_prefetch s I) (m_buffer s bid) =
             filter (\<lambda>I. \<not> is_prefetch s I) (m_buffer s bid)"
    by (rule filter_cong) auto
  show ?thesis
    by (simp add: flush_prefetch_def collect_prefetch_eq [OF nn] seq_def loop flt)
qed

lemma insert_req_in_drb_eq:
  assumes "m_buffer_free_list s bid \<noteq> []" and "0 \<le> rid"
  shows "seq (insert_req_in_drb s mem_req bid rid cid)
           (\<lambda>s2. Inr (True, s2\<lparr>m_total_req := m_total_req s2 + 1,
                                req_heap := (req_heap s2)(mem_req :=
                                   (req_heap s2 mem_req)\<lparr>rq_state := MEM_DRAM_START\<rparr>)\<rparr>))
         = Inr (True, queued s mem_req bid rid cid)"
proof -
  from assms(1) obtain e rest where fl: "m_buffer_free_list s bid = e # rest"
    by (cases "m_buffer_free_list s bid") auto
  have rd: "(case rq_type (req_heap s mem_req) of MRT_WB \<Rightarrow> False | _ \<Rightarrow> True) =
            (rq_type (req_heap s mem_req) \<noteq> MRT_WB)"
    by (cases "rq_type (req_heap s mem_req)") simp_all
  show ?thesis
    using assms(2)
    by (simp add: insert_req_in_drb_def fl seq_def drb_set_def Let_def queued_def rd dram_req_priority_def)
      ((rule dram_controller_c.equality; simp add: fun_eq_iff)?)
qed

text \<open>
  Claim C3.  Let \<open>bid\<close> be the bank decoded from the request's address (the row being
  non-negative, so that the assertion holds) and let every pending entry of that bank
  carry a request.  If the bank has a free entry, the request is queued: the first free
  entry is taken, populated from the request and appended to the pending list,
  \<open>m_total_req\<close> is incremented, the request's state becomes \<open>MEM_DRAM_START\<close> and
  the result is true.  If the free list is empty, every pending DPRF entry of the bank
  is removed (its request handed to \<^verbatim>\<open>free_req\<close>, \<open>m_total_req\<close> decremented, the entry
  appended to the free list); if there was none, the result is false and the state
  is unchanged; otherwise the request is queued as before, in the flushed state.
\<close>

theorem insert_new_req_spec:
  assumes parse: "address_parsing s (rq_addr (req_heap s mem_req)) = (bid_xor, cid, bid0, rid)"
    and rid: "0 \<le> rid"
    and bid: "bid = nat (permute_bank s bid0 bid_xor)"
    and nn: "\<forall>I \<in> set (m_buffer s bid). m_req (drb_heap s I) \<noteq> None"
  shows "insert_new_req s mem_req =
     (if m_buffer_free_list s bid \<noteq> [] then Inr (True, queued s mem_req bid rid cid)
      else if filter (is_prefetch s) (m_buffer s bid) = [] then Inr (False, s)
      else Inr (True, queued (flushed s bid) mem_req bid rid cid))"
proof (cases "m_buffer_free_list s bid = []")
  case False
  with rid show ?thesis
    by (simp add: insert_new_req_def parse bid [symmetric] insert_req_in_drb_eq Let_def seq_def [of "Inr s"])
next
  case True
  note fl = flush_prefetch_eq [OF nn, folded flushed_def]
  show ?thesis
  proof (cases "filter (is_prefetch s) (m_buffer s bid) = []")
    case e: True
    have "flushed s bid = s"
    proof -
      have 1: "(m_buffer_free_list s)(bid := []) = m_buffer_free_list s"
        using True by (auto simp: fun_eq_iff)
      have 2: "filter (\<lambda>I. \<not> is_prefetch s I) (m_buffer s bid) = m_buffer s bid"
        using e by (simp add: filter_empty_conv)
      show ?thesis by (simp add: flushed_def True e 1 2)
    qed
    with True e show ?thesis
      by (simp add: insert_new_req_def parse bid [symmetric] rid fl seq_def Let_def)
  next
    case ne: False
    then have fne: "m_buffer_free_list (flushed s bid) bid \<noteq> []"
      by (simp add: flushed_def True)
    from insert_req_in_drb_eq [OF fne rid] True ne fne show ?thesis
      by (simp add: insert_new_req_def parse bid [symmetric] rid fl Let_def seq_def [of "Inr (flushed s bid)"])
  qed
qed

lemma demo_full_fields:
  "m_buffer (demo_full t) 0 = [0, 1, 2, 3]" "m_buffer_free_list (demo_full t) 0 = []"
  "req_heap (demo_full t) p = demo_req\<lparr>rq_id := int p,
      rq_type := (if p = 1 \<or> p = 3 then t else MRT_DFETCH),
      rq_state := (if p < 4 then MEM_DRAM_START else MEM_UPSTREAM)\<rparr>"
  "p < 4 \<Longrightarrow> drb_heap (demo_full t) p = demo_entry0\<lparr>m_id := int p, m_req := Some p, m_timestamp := 1\<rparr>"
  "m_total_req (demo_full t) = 4" "pool_freed (demo_full t) = []"
  "m_bid_shift (demo_full t) = 11" "m_rid_shift (demo_full t) = 1" "m_bid_xor_shift (demo_full t) = 15"
  "m_cid_mask (demo_full t) = 2047" "m_bid_mask (demo_full t) = 1"
  "KNOB_DRAM_BANK_XOR_INDEX (demo_full t) = False"
  by (simp_all add: demo_full_def demo_fields)

theorem insert_new_req_spec_witness:
  "(\<exists>s'. insert_new_req (demo_full MRT_DPRF) 4 = Inr (True, s') \<and> m_buffer s' 0 = [0, 2, 1] \<and>
         m_buffer_free_list s' 0 = [3] \<and> pool_freed s' = [1, 3] \<and> m_total_req s' = 3 \<and>
         m_req (drb_heap s' 1) = Some 4 \<and> rq_state (req_heap s' 4) = MEM_DRAM_START) \<and>
   insert_new_req (demo_full MRT_DFETCH) 4 = Inr (False, demo_full MRT_DFETCH)"
proof -
  have parse: "address_parsing (demo_full t) (rq_addr (req_heap (demo_full t) 4)) = (0, 0, 0, 0)" for t
    by (simp add: address_parsing_def demo_full_fields demo_req_def c_int_def Let_def)
  have bid: "0 = nat (permute_bank (demo_full t) 0 0)" for t
    by (simp add: permute_bank_def demo_full_fields)
  have nn: "\<forall>I \<in> set (m_buffer (demo_full t) 0). m_req (drb_heap (demo_full t) I) \<noteq> None" for t
    by (simp add: demo_full_fields)
  have ip: "is_prefetch (demo_full t) p \<longleftrightarrow> (p = 1 \<or> p = 3) \<and> t = MRT_DPRF" if "p < 4" for p t
    using that by (simp add: is_prefetch_def demo_full_fields demo_req_def)
  from insert_new_req_spec [OF parse order_refl bid nn, of MRT_DPRF]
    insert_new_req_spec [OF parse order_refl bid nn, of MRT_DFETCH]
  show ?thesis
    by (simp add: demo_full_fields ip queued_def flushed_def Let_def)
qed

subsection \<open>Completion under back-pressure\<close>

lemma send_packet_effect:
  assumes "send_packet s p = Inr (sent, s1)"
  shows "banks_kept s s1 \<and> noc_calls s1 = Suc (noc_calls s) \<and> sent = noc_oracle s (noc_calls s) \<and>
         (\<exists>r. m_req (drb_heap s p) = Some r \<and> noc_sent s1 = noc_sent s @ (if sent then [r] else [])) \<and>
         (\<forall>r. rq_state (req_heap s1 r) = rq_state (req_heap s r)) \<and>
         m_total_req s1 = m_total_req s \<and> pool_freed s1 = pool_freed s"
  using assms
  by (auto simp: send_packet_def Let_def banks_kept_def split: option.splits if_splits)

lemma banks_kept_refl: "banks_kept s s"
  by (simp add: banks_kept_def)

lemma banks_kept_trans:
  assumes "banks_kept s s1" and "banks_kept s1 s2"
  shows "banks_kept s s2"
proof -
  from assms(1) have a: "drb_heap s1 = drb_heap s" "m_buffer s1 = m_buffer s"
    "m_buffer_free_list s1 = m_buffer_free_list s" "m_current_list s1 = m_current_list s"
    "m_data_ready s1 = m_data_ready s" "noc_oracle s1 = noc_oracle s"
    "m_simulation_cycle s1 = m_simulation_cycle s"
    "m_num_bank s1 = m_num_bank s" "KNOB_DRAM_BUFFER_SIZE s1 = KNOB_DRAM_BUFFER_SIZE s"
    "\<And>r. rq_type (req_heap s1 r) = rq_type (req_heap s r)"
    unfolding banks_kept_def by blast+
  from assms(2) have b: "drb_heap s2 = drb_heap s1" "m_buffer s2 = m_buffer s1"
    "m_buffer_free_list s2 = m_buffer_free_list s1" "m_current_list s2 = m_current_list s1"
    "m_data_ready s2 = m_data_ready s1" "noc_oracle s2 = noc_oracle s1"
    "m_simulation_cycle s2 = m_simulation_cycle s1"
    "m_num_bank s2 = m_num_bank s1" "KNOB_DRAM_BUFFER_SIZE s2 = KNOB_DRAM_BUFFER_SIZE s1"
    "\<And>r. rq_type (req_heap s2 r) = rq_type (req_heap s1 r)"
    unfolding banks_kept_def by blast+
  show ?thesis unfolding banks_kept_def by (simp only: a b simp_thms)
qed

lemma refused_since_trans:
  assumes le1: "noc_calls s \<le> noc_calls s1" and le2: "noc_calls s1 \<le> noc_calls s2"
    and orc: "noc_oracle s1 = noc_oracle s"
  shows "refused_since s s2 \<longleftrightarrow> refused_since s s1 \<or> refused_since s1 s2"
proof
  assume "refused_since s s2"
  then obtain k where k: "noc_calls s \<le> k" "k < noc_calls s2" "\<not> noc_oracle s k"
    unfolding refused_since_def by blast
  show "refused_since s s1 \<or> refused_since s1 s2"
  proof (cases "k < noc_calls s1")
    case True
    with k have "refused_since s s1" unfolding refused_since_def by blast
    then show ?thesis ..
  next
    case False
    then have "noc_calls s1 \<le> k" by simp
    with k orc have "refused_since s1 s2" unfolding refused_since_def by auto
    then show ?thesis ..
  qed
next
  assume "refused_since s s1 \<or> refused_since s1 s2"
  then show "refused_since s s2"
  proof
    assume "refused_since s s1"
    then obtain k where "noc_calls s \<le> k" "k < noc_calls s1" "\<not> noc_oracle s k"
      unfolding refused_since_def by blast
    with le2 have "noc_calls s \<le> k \<and> k < noc_calls s2 \<and> \<not> noc_oracle s k" by simp
    then show ?thesis unfolding refused_since_def by blast
  next
    assume "refused_since s1 s2"
    then obtain k where "noc_calls s1 \<le> k" "k < noc_calls s2" "\<not> noc_oracle s1 k"
      unfolding refused_since_def by blast
    with le1 orc have "noc_calls s \<le> k \<and> k < noc_calls s2 \<and> \<not> noc_oracle s k" by simp
    then show ?thesis unfolding refused_since_def by blast
  qed
qed

lemma not_refused_since_same: "\<not> refused_since s s"
  by (simp add: refused_since_def)

lemma merge_effectI:
  assumes "banks_kept s s'" "noc_calls s \<le> noc_calls s'" "m_total_req s' = m_total_req s"
    "noc_sent s' = noc_sent s @ ns"
    "\<forall>r. rq_state (req_heap s' r) \<noteq> rq_state (req_heap s r) \<longrightarrow> r \<in> set ns"
    "t' = t @ new" "mset new \<subseteq># mset Is"
    "\<forall>I \<in> set new. m_addr (drb_heap s I) = m_addr (drb_heap s c) \<and>
        (\<exists>r. m_req (drb_heap s I) = Some r \<and> (rq_type (req_heap s r) = MRT_WB \<or> r \<in> set ns))"
    "n' \<longleftrightarrow> n \<or> refused_since s s'"
  shows "merge_effect c Is (n, t, s) (n', t', s')"
  unfolding merge_effect_def prod.case
  apply (intro conjI)
      apply (rule assms(1))
     apply (rule assms(2))
    apply (rule assms(3))
   apply (rule exI [of _ ns], rule exI [of _ new])
   apply (intro conjI assms(4) assms(5) assms(6) assms(7) assms(8))
  apply (rule assms(9))
  done

lemma merge_effect_refl: "merge_effect c Is a a"
proof (cases a)
  case (fields n t s)
  show ?thesis unfolding fields
    by (rule merge_effectI [where ns = "[]" and new = "[]"])
       (simp_all add: banks_kept_refl not_refused_since_same)
qed

lemma merge_effect_trans:
  assumes 1: "merge_effect c [I] a a1" and 2: "merge_effect c Is a1 a2"
  shows "merge_effect c (I # Is) a a2"
proof -
  obtain n t s where a: "a = (n, t, s)" by (cases a)
  obtain n1 t1 s1 where a1: "a1 = (n1, t1, s1)" by (cases a1)
  obtain n2 t2 s2 where a2: "a2 = (n2, t2, s2)" by (cases a2)
  from 1 obtain ns new where e1: "banks_kept s s1" "noc_calls s \<le> noc_calls s1"
    "m_total_req s1 = m_total_req s" "noc_sent s1 = noc_sent s @ ns"
    "\<forall>r. rq_state (req_heap s1 r) \<noteq> rq_state (req_heap s r) \<longrightarrow> r \<in> set ns"
    "t1 = t @ new" "mset new \<subseteq># mset [I]"
    "\<forall>J \<in> set new. m_addr (drb_heap s J) = m_addr (drb_heap s c) \<and>
        (\<exists>r. m_req (drb_heap s J) = Some r \<and> (rq_type (req_heap s r) = MRT_WB \<or> r \<in> set ns))"
    "n1 \<longleftrightarrow> n \<or> refused_since s s1"
    unfolding merge_effect_def a a1 by blast
  from 2 obtain ns' new' where e2: "banks_kept s1 s2" "noc_calls s1 \<le> noc_calls s2"
    "m_total_req s2 = m_total_req s1" "noc_sent s2 = noc_sent s1 @ ns'"
    "\<forall>r. rq_state (req_heap s2 r) \<noteq> rq_state (req_heap s1 r) \<longrightarrow> r \<in> set ns'"
    "t2 = t1 @ new'" "mset new' \<subseteq># mset Is"
    "\<forall>J \<in> set new'. m_addr (drb_heap s1 J) = m_addr (drb_heap s1 c) \<and>
        (\<exists>r. m_req (drb_heap s1 J) = Some r \<and> (rq_type (req_heap s1 r) = MRT_WB \<or> r \<in> set ns'))"
    "n2 \<longleftrightarrow> n1 \<or> refused_since s1 s2"
    unfolding merge_effect_def a1 a2 by blast
  from e1(1) have k: "drb_heap s1 = drb_heap s" "noc_oracle s1 = noc_oracle s"
    "\<And>r. rq_type (req_heap s1 r) = rq_type (req_heap s r)"
    by (simp_all add: banks_kept_def)
  have ref: "refused_since s s2 \<longleftrightarrow> refused_since s s1 \<or> refused_since s1 s2"
    using e1(2) e2(2) k(2) by (rule refused_since_trans)
  have f1: "banks_kept s s2" using e1(1) e2(1) by (rule banks_kept_trans)
  have f2: "noc_calls s \<le> noc_calls s2" using e1(2) e2(2) by simp
  have f3: "m_total_req s2 = m_total_req s" using e1(3) e2(3) by simp
  have f4: "noc_sent s2 = noc_sent s @ (ns @ ns')" using e1(4) e2(4) by simp
  have f5: "\<forall>r. rq_state (req_heap s2 r) \<noteq> rq_state (req_heap s r) \<longrightarrow> r \<in> set (ns @ ns')"
  proof (intro allI impI)
    fix r assume "rq_state (req_heap s2 r) \<noteq> rq_state (req_heap s r)"
    then have "rq_state (req_heap s2 r) \<noteq> rq_state (req_heap s1 r) \<or>
               rq_state (req_heap s1 r) \<noteq> rq_state (req_heap s r)" by metis
    with e1(5) e2(5) show "r \<in> set (ns @ ns')" by auto
  qed
  have f6: "t2 = t @ (new @ new')" using e1(6) e2(6) by simp
  have f6': "mset (new @ new') \<subseteq># mset (I # Is)"
    using e1(7) e2(7) subset_mset.add_mono [of "mset new" "mset [I]" "mset new'" "mset Is"] by simp
  have f7: "\<forall>J \<in> set (new @ new'). m_addr (drb_heap s J) = m_addr (drb_heap s c) \<and>
        (\<exists>r. m_req (drb_heap s J) = Some r \<and> (rq_type (req_heap s r) = MRT_WB \<or> r \<in> set (ns @ ns')))"
  proof
    fix J assume "J \<in> set (new @ new')"
    then consider "J \<in> set new" | "J \<in> set new'" by auto
    then show "m_addr (drb_heap s J) = m_addr (drb_heap s c) \<and>
        (\<exists>r. m_req (drb_heap s J) = Some r \<and> (rq_type (req_heap s r) = MRT_WB \<or> r \<in> set (ns @ ns')))"
    proof cases
      case 1
      with e1(8) show ?thesis by auto
    next
      case 2
      with e2(8) show ?thesis by (auto simp: k)
    qed
  qed
  have f8: "n2 = (n \<or> refused_since s s2)" using e1(9) e2(9) ref by blast
  from f1 f2 f3 f4 f5 f6 f6' f7 f8 show ?thesis
    unfolding a a2 by (rule merge_effectI)
qed

lemma merge_step:
  assumes "merge_loop c (I # Is) a = Inr a'"
  shows "\<exists>a1. merge_effect c [I] a a1 \<and> merge_loop c Is a1 = Inr a'"
proof -
  obtain n t s where a: "a = (n, t, s)" by (cases a)
  show ?thesis
  proof (cases "m_addr (drb_heap s I) = m_addr (drb_heap s c)")
    case False
    with assms show ?thesis
      by (intro exI [of _ a]) (simp add: a merge_effect_refl [of c "[I]" "(n, t, s)"])
  next
    case True
    with assms obtain r where r: "m_req (drb_heap s I) = Some r"
      by (auto simp: a split: option.splits)
    show ?thesis
    proof (cases "rq_type (req_heap s r) = MRT_WB")
      case wb: True
      let ?s1 = "(free_req s r)\<lparr>m_num_completed_in_last_cycle := c_int (m_simulation_cycle s)\<rparr>"
      have "merge_effect c [I] a (n, t @ [I], ?s1)"
        unfolding a
        by (rule merge_effectI [where ns = "[]" and new = "[I]"])
           (auto simp: banks_kept_def free_req_def refused_since_def True r wb)
      with assms True r wb show ?thesis
        by (intro exI [of _ "(n, t @ [I], ?s1)"]) (simp add: a)
    next
      case nwb: False
      with assms True r obtain sent s1 where sp: "send_packet s I = Inr (sent, s1)"
        by (auto simp: a split: sum.splits)
      note eff = send_packet_effect [OF sp]
      show ?thesis
      proof (cases sent)
        case False
        have "refused_since s s1" using eff False by (auto simp: refused_since_def)
        then have "merge_effect c [I] a (True, t, s1)"
          unfolding a using eff False
          by (intro merge_effectI [where ns = "[]" and new = "[]"]) simp_all
        with assms True r nwb sp False show ?thesis
          by (intro exI [of _ "(True, t, s1)"]) (simp add: a)
      next
        case st: True
        let ?s2 = "s1\<lparr>req_heap := (req_heap s1)(r := (req_heap s1 r)\<lparr>rq_state := MEM_DRAM_DONE\<rparr>),
                      m_num_completed_in_last_cycle := c_int (m_simulation_cycle s1)\<rparr>"
        have nr: "\<not> refused_since s ?s2"
        proof
          assume "refused_since s ?s2"
          then obtain k where k: "noc_calls s \<le> k" "k < noc_calls s1" "\<not> noc_oracle s k"
            by (auto simp: refused_since_def)
          with eff have "k = noc_calls s" by simp
          with k eff st show False by simp
        qed
        have bk: "banks_kept s ?s2" using eff by (auto simp: banks_kept_def)
        have g4: "noc_sent ?s2 = noc_sent s @ [r]" using eff st r by auto
        have g5: "\<forall>r'. rq_state (req_heap ?s2 r') \<noteq> rq_state (req_heap s r') \<longrightarrow> r' \<in> set [r]"
          using eff by auto
        have g7: "\<forall>J \<in> set [I]. m_addr (drb_heap s J) = m_addr (drb_heap s c) \<and>
          (\<exists>r'. m_req (drb_heap s J) = Some r' \<and> (rq_type (req_heap s r') = MRT_WB \<or> r' \<in> set [r]))"
          using True r by simp
        have g2: "noc_calls s \<le> noc_calls ?s2" "m_total_req ?s2 = m_total_req s" using eff by auto
        have "merge_effect c [I] a (n, t @ [I], ?s2)"
          unfolding a using bk g2 g4 g5 _ _ g7
          by (rule merge_effectI) (simp_all add: nr)
        with assms True r nwb sp st show ?thesis
          by (intro exI [of _ "(n, t @ [I], ?s2)"]) (simp add: a)
      qed
    qed
  qed
qed

lemma merge_loop_effect:
  "merge_loop c Is a = Inr a' \<Longrightarrow> merge_effect c Is a a'"
proof (induction Is arbitrary: a)
  case Nil
  then show ?case by (cases a) (simp add: merge_effect_refl)
next
  case (Cons I Is)
  from merge_step [OF Cons.prems] obtain a1 where
    "merge_effect c [I] a a1" "merge_loop c Is a1 = Inr a'" by blast
  with Cons.IH [of a1] show ?case by (blast intro: merge_effect_trans)
qed

lemma reset_reset: "reset (reset e) = reset e"
  by (simp add: reset_def)

lemma merge_release_loop:
  "for_each temp (merge_release ii) s =
     Inr (s\<lparr>drb_heap := (\<lambda>p. if p \<in> set temp then reset (drb_heap s p) else drb_heap s p),
            m_buffer_free_list := (m_buffer_free_list s)(ii := m_buffer_free_list s ii @ temp),
            m_buffer := (m_buffer s)(ii := filter (\<lambda>I. I \<notin> set temp) (m_buffer s ii)),
            m_total_req := m_total_req s - int (length temp)\<rparr>)"
proof (induction temp arbitrary: s)
  case Nil
  show ?case by simp
next
  case (Cons I temp)
  let ?s1 = "s\<lparr>drb_heap := (drb_heap s)(I := reset (drb_heap s I)),
                m_buffer_free_list := (m_buffer_free_list s)(ii := m_buffer_free_list s ii @ [I]),
                m_buffer := (m_buffer s)(ii := removeAll I (m_buffer s ii)),
                m_total_req := m_total_req s - 1\<rparr>"
  have one: "merge_release ii I s = Inr ?s1" by (simp add: merge_release_def)
  have flt: "filter (\<lambda>J. J \<notin> set temp) (removeAll I (m_buffer s ii)) =
             filter (\<lambda>J. J \<noteq> I \<and> J \<notin> set temp) (m_buffer s ii)"
    by (simp add: removeAll_filter_not_eq conj_commute) metis
  show ?case
    by (simp add: one seq_def Cons.IH)
      (rule dram_controller_c.equality; simp add: fun_eq_iff flt reset_reset)
qed

text \<open>What one bank's completion step does, in terms of the merged entries \<open>temp\<close> and
  whether the current entry was completed.\<close>

lemma complete_current_effect:
  assumes "complete_current ii c s = Inr s'"
  shows "\<exists>done. noc_oracle s' = noc_oracle s \<and> noc_calls s \<le> noc_calls s' \<and>
     (refused_since s s' \<longrightarrow> \<not> done) \<and>
     (\<exists>ns. noc_sent s' = noc_sent s @ ns \<and>
        (\<forall>r. rq_state (req_heap s' r) \<noteq> rq_state (req_heap s r) \<longrightarrow> r \<in> set ns) \<and>
        (done \<longrightarrow> (\<exists>r. m_req (drb_heap s c) = Some r \<and> (rq_type (req_heap s r) = MRT_WB \<or> r \<in> set ns)))) \<and>
     m_buffer s' = m_buffer s \<and>
     m_buffer_free_list s' = (if done then (m_buffer_free_list s)(ii := m_buffer_free_list s ii @ [c])
                              else m_buffer_free_list s) \<and>
     m_current_list s' = (if done then (m_current_list s)(ii := None) else m_current_list s) \<and>
     m_data_ready s' = (if done then (m_data_ready s)(ii := ULLONG_MAX) else m_data_ready s) \<and>
     drb_heap s' = (if done then (drb_heap s)(c := reset (drb_heap s c)) else drb_heap s) \<and>
     m_num_bank s' = m_num_bank s \<and> KNOB_DRAM_BUFFER_SIZE s' = KNOB_DRAM_BUFFER_SIZE s"
proof -
  from assms obtain r where r: "m_req (drb_heap s c) = Some r"
    by (auto simp: complete_current_def split: option.splits)
  show ?thesis
  proof (cases "rq_type (req_heap s r) = MRT_WB")
    case True
    with assms r show ?thesis
      by (intro exI [of _ True])
         (auto simp: complete_current_def seq_def free_req_def refused_since_def)
  next
    case False
    with assms r obtain sent s1 where sp: "send_packet s c = Inr (sent, s1)"
      by (auto simp: complete_current_def seq_def split: sum.splits)
    note eff = send_packet_effect [OF sp]
    from eff have bk: "drb_heap s1 = drb_heap s" "m_buffer s1 = m_buffer s"
      "m_buffer_free_list s1 = m_buffer_free_list s" "m_current_list s1 = m_current_list s"
      "m_data_ready s1 = m_data_ready s" "noc_oracle s1 = noc_oracle s"
      "m_num_bank s1 = m_num_bank s" "KNOB_DRAM_BUFFER_SIZE s1 = KNOB_DRAM_BUFFER_SIZE s"
      by (simp_all add: banks_kept_def)
    have ref: "refused_since s s1 \<longleftrightarrow> \<not> sent"
    proof
      assume "refused_since s s1"
      then obtain k where k: "noc_calls s \<le> k" "k < noc_calls s1" "\<not> noc_oracle s k"
        by (auto simp: refused_since_def)
      with eff have "k = noc_calls s" by simp
      with k eff show "\<not> sent" by simp
    next
      assume "\<not> sent"
      with eff show "refused_since s s1" by (auto simp: refused_since_def)
    qed
    show ?thesis
    proof (cases sent)
      case True
      with assms r False sp eff bk ref show ?thesis
        by (intro exI [of _ True])
           (auto simp: complete_current_def seq_def refused_since_def)
    next
      case nsent: False
      with assms r False sp have "s' = s1" by (simp add: complete_current_def seq_def)
      with eff bk ref nsent r show ?thesis
        by (intro exI [of _ False]) auto
    qed
  qed
qed

lemma completion_effect_none:
  "completion_effect ii c s s [] False []"
  by (simp add: completion_effect_def not_refused_since_same)

lemma bank_complete_effect:
  assumes cur: "m_current_list s ii = Some c" and run: "bank_complete ii s = Inr s'"
  shows "\<exists>temp done ns. completion_effect ii c s s' temp done ns"
proof (cases "m_data_ready s ii \<le> m_simulation_cycle s")
  case False
  with cur run have "s' = s" by (simp add: bank_complete_def)
  then show ?thesis using completion_effect_none by blast
next
  case rdy: True
  with cur run have st: "m_state (drb_heap s c) = DRAM_DATA_WAIT"
    by (auto simp: bank_complete_def split: if_splits)
  show ?thesis
  proof (cases "KNOB_DRAM_MERGE_REQUESTS s")
    case False
    with cur run rdy st have cc: "complete_current ii c s = Inr s'"
      by (simp add: bank_complete_def seq_def)
    from complete_current_effect [OF cc] obtain dn ns where
      e: "noc_oracle s' = noc_oracle s" "noc_calls s \<le> noc_calls s'" "refused_since s s' \<longrightarrow> \<not> dn"
      "noc_sent s' = noc_sent s @ ns"
      "\<forall>r. rq_state (req_heap s' r) \<noteq> rq_state (req_heap s r) \<longrightarrow> r \<in> set ns"
      "dn \<longrightarrow> (\<exists>r. m_req (drb_heap s c) = Some r \<and> (rq_type (req_heap s r) = MRT_WB \<or> r \<in> set ns))"
      "m_buffer s' = m_buffer s"
      "m_buffer_free_list s' = (if dn then (m_buffer_free_list s)(ii := m_buffer_free_list s ii @ [c])
                              else m_buffer_free_list s)"
      "m_current_list s' = (if dn then (m_current_list s)(ii := None) else m_current_list s)"
      "m_data_ready s' = (if dn then (m_data_ready s)(ii := ULLONG_MAX) else m_data_ready s)"
      "drb_heap s' = (if dn then (drb_heap s)(c := reset (drb_heap s c)) else drb_heap s)"
      "m_num_bank s' = m_num_bank s" "KNOB_DRAM_BUFFER_SIZE s' = KNOB_DRAM_BUFFER_SIZE s"
      by blast
    have "completion_effect ii c s s' [] dn ns"
      unfolding completion_effect_def using e by (auto simp: fun_eq_iff)
    then show ?thesis by blast
  next
    case mrg: True
    with cur run rdy st obtain n temp s1 where ml: "merge_loop c (m_buffer s ii) (False, [], s) = Inr (n, temp, s1)"
      by (auto simp: bank_complete_def seq_def split: sum.splits)
    let ?s2 = "s1\<lparr>drb_heap := (\<lambda>p. if p \<in> set temp then reset (drb_heap s1 p) else drb_heap s1 p),
            m_buffer_free_list := (m_buffer_free_list s1)(ii := m_buffer_free_list s1 ii @ temp),
            m_buffer := (m_buffer s1)(ii := filter (\<lambda>I. I \<notin> set temp) (m_buffer s1 ii)),
            m_total_req := m_total_req s1 - int (length temp)\<rparr>"
    from cur run rdy st mrg ml have fin: "(if n then Inr ?s2 else complete_current ii c ?s2) = Inr s'"
      by (simp add: bank_complete_def seq_def merge_release_loop)
    from merge_loop_effect [OF ml] obtain ns where
      m: "banks_kept s s1" "noc_calls s \<le> noc_calls s1" "noc_sent s1 = noc_sent s @ ns"
      "\<forall>r. rq_state (req_heap s1 r) \<noteq> rq_state (req_heap s r) \<longrightarrow> r \<in> set ns"
      "mset temp \<subseteq># mset (m_buffer s ii)"
      "\<forall>I \<in> set temp. m_addr (drb_heap s I) = m_addr (drb_heap s c) \<and>
         (\<exists>r. m_req (drb_heap s I) = Some r \<and> (rq_type (req_heap s r) = MRT_WB \<or> r \<in> set ns))"
      "n \<longleftrightarrow> refused_since s s1"
      unfolding merge_effect_def prod.case by auto
    from m(1) have bk: "drb_heap s1 = drb_heap s" "m_buffer s1 = m_buffer s"
      "m_buffer_free_list s1 = m_buffer_free_list s" "m_current_list s1 = m_current_list s"
      "m_data_ready s1 = m_data_ready s" "noc_oracle s1 = noc_oracle s"
      "\<And>r. rq_type (req_heap s1 r) = rq_type (req_heap s r)"
      "m_num_bank s1 = m_num_bank s" "KNOB_DRAM_BUFFER_SIZE s1 = KNOB_DRAM_BUFFER_SIZE s"
      by (simp_all add: banks_kept_def)
    have r2: "refused_since s ?s2 \<longleftrightarrow> refused_since s s1" by (simp add: refused_since_def)
    show ?thesis
    proof (cases n)
      case True
      with fin have s': "s' = ?s2" by simp
      have "completion_effect ii c s s' temp False ns"
        unfolding completion_effect_def s' using m True by (auto simp: bk refused_since_def)
      then show ?thesis by blast
    next
      case False
      with fin have cc: "complete_current ii c ?s2 = Inr s'" by simp
      from complete_current_effect [OF cc] obtain dn ns' where
        e: "noc_oracle s' = noc_oracle ?s2" "noc_calls ?s2 \<le> noc_calls s'" "refused_since ?s2 s' \<longrightarrow> \<not> dn"
        "noc_sent s' = noc_sent ?s2 @ ns'"
        "\<forall>r. rq_state (req_heap s' r) \<noteq> rq_state (req_heap ?s2 r) \<longrightarrow> r \<in> set ns'"
        "dn \<longrightarrow> (\<exists>r. m_req (drb_heap ?s2 c) = Some r \<and> (rq_type (req_heap ?s2 r) = MRT_WB \<or> r \<in> set ns'))"
        "m_buffer s' = m_buffer ?s2"
        "m_buffer_free_list s' = (if dn then (m_buffer_free_list ?s2)(ii := m_buffer_free_list ?s2 ii @ [c])
                              else m_buffer_free_list ?s2)"
        "m_current_list s' = (if dn then (m_current_list ?s2)(ii := None) else m_current_list ?s2)"
        "m_data_ready s' = (if dn then (m_data_ready ?s2)(ii := ULLONG_MAX) else m_data_ready ?s2)"
        "drb_heap s' = (if dn then (drb_heap ?s2)(c := reset (drb_heap ?s2 c)) else drb_heap ?s2)"
        "m_num_bank s' = m_num_bank ?s2" "KNOB_DRAM_BUFFER_SIZE s' = KNOB_DRAM_BUFFER_SIZE ?s2"
        by blast
      have ref: "refused_since s s' \<longleftrightarrow> refused_since s ?s2 \<or> refused_since ?s2 s'"
        using m(2) e(2) by (intro refused_since_trans) (simp_all add: bk)
      have c1: "refused_since s s' \<longrightarrow> \<not> dn" using ref r2 m(7) False e(3) by blast
      have c2: "noc_sent s' = noc_sent s @ (ns @ ns')" using e(4) m(3) by simp
      have c3: "\<forall>r. rq_state (req_heap s' r) \<noteq> rq_state (req_heap s r) \<longrightarrow> r \<in> set (ns @ ns')"
      proof (intro allI impI)
        fix r assume "rq_state (req_heap s' r) \<noteq> rq_state (req_heap s r)"
        then have "rq_state (req_heap s' r) \<noteq> rq_state (req_heap ?s2 r) \<or>
                   rq_state (req_heap s1 r) \<noteq> rq_state (req_heap s r)" by auto
        with e(5) m(4) show "r \<in> set (ns @ ns')" by auto
      qed
      have c4: "\<forall>I \<in> set temp. \<exists>r. m_req (drb_heap s I) = Some r \<and>
         (rq_type (req_heap s r) = MRT_WB \<or> r \<in> set (ns @ ns'))"
        using m(6) by auto
      have c5: "dn \<longrightarrow> (\<exists>r. m_req (drb_heap s c) = Some r \<and> (rq_type (req_heap s r) = MRT_WB \<or> r \<in> set (ns @ ns')))"
      proof
        assume dn
        with e(6) obtain r where r: "m_req (drb_heap ?s2 c) = Some r"
          "rq_type (req_heap ?s2 r) = MRT_WB \<or> r \<in> set ns'" by blast
        from r(1) have "c \<notin> set temp" by (auto simp: reset_def split: if_splits)
        with r show "\<exists>r. m_req (drb_heap s c) = Some r \<and> (rq_type (req_heap s r) = MRT_WB \<or> r \<in> set (ns @ ns'))"
          by (auto simp: bk)
      qed
      have "completion_effect ii c s s' temp dn (ns @ ns')"
        unfolding completion_effect_def
        using m(5) c1 c2 c3 c4 c5 e(7-13) by (auto simp: bk fun_eq_iff)
      then show ?thesis by blast
    qed
  qed
qed

















subsection \<open>Buffer conservation\<close>

lemma lists_kept_refl: "lists_kept s s"
  by (simp add: lists_kept_def)

lemma lists_kept_trans: "lists_kept s s1 \<Longrightarrow> lists_kept s1 s2 \<Longrightarrow> lists_kept s s2"
  unfolding lists_kept_def by (elim conjE, intro conjI) (erule trans, assumption)+

lemma lists_kept_conserved: "lists_kept s s' \<Longrightarrow> buffers_conserved s \<Longrightarrow> buffers_conserved s'"
  by (simp add: lists_kept_def buffers_conserved_def bank_entries_def)

lemma buffers_conserved_step:
  assumes inv: "buffers_conserved s"
    and cfg: "m_num_bank s' = m_num_bank s" "KNOB_DRAM_BUFFER_SIZE s' = KNOB_DRAM_BUFFER_SIZE s"
    and other: "\<And>jj. jj \<noteq> ii \<Longrightarrow> bank_entries s' jj = bank_entries s jj"
    and here: "distinct (bank_entries s ii) \<Longrightarrow> mset (bank_entries s' ii) = mset (bank_entries s ii)"
  shows "buffers_conserved s'"
  unfolding buffers_conserved_def
proof (intro allI impI)
  fix jj assume "jj < m_num_bank s'"
  with inv cfg have ok: "distinct (bank_entries s jj)" "length (bank_entries s jj) = KNOB_DRAM_BUFFER_SIZE s"
    by (simp_all add: buffers_conserved_def)
  show "distinct (bank_entries s' jj) \<and> length (bank_entries s' jj) = KNOB_DRAM_BUFFER_SIZE s'"
  proof (cases "jj = ii")
    case False
    with other ok cfg show ?thesis by simp
  next
    case True
    with here ok have m: "mset (bank_entries s' jj) = mset (bank_entries s jj)" by simp
    from m ok(1) have "distinct (bank_entries s' jj)" by (metis mset_eq_imp_distinct_iff)
    moreover from m have "length (bank_entries s' jj) = length (bank_entries s jj)"
      by (rule mset_eq_length)
    ultimately show ?thesis using ok cfg by simp
  qed
qed

lemma mset_move_sublist:
  assumes d: "distinct pending" and sub: "mset ds \<subseteq># mset pending"
  shows "mset ds + mset (filter (\<lambda>I. I \<notin> set ds) pending) = mset pending"
proof -
  from sub have set: "set ds \<subseteq> set pending" by (metis set_mset_mono set_mset_mset)
  have dd: "distinct ds"
    unfolding distinct_count_atmost_1
  proof (intro allI)
    fix a
    have le: "count (mset ds) a \<le> count (mset pending) a"
      using sub by (rule mset_subset_eq_count)
    from d have p: "count (mset pending) a = (if a \<in> set pending then 1 else 0)"
      unfolding distinct_count_atmost_1 by blast
    show "count (mset ds) a = (if a \<in> set ds then 1 else 0)"
    proof (cases "a \<in> set ds")
      case True
      then have nz: "count (mset ds) a \<noteq> 0" by (simp add: count_mset_0_iff)
      from p have "count (mset pending) a \<le> 1" by (simp split: if_splits)
      with le nz have "count (mset ds) a = 1" by linarith
      with True show ?thesis by (simp only: if_True)
    next
      case False
      then show ?thesis by (simp add: count_mset_0_iff)
    qed
  qed
  have "set (filter (\<lambda>I. I \<in> set ds) pending) = set ds" using set by auto
  with d dd have "mset (filter (\<lambda>I. I \<in> set ds) pending) = mset ds"
    by (metis distinct_filter set_eq_iff_mset_eq_distinct)
  moreover have "mset (filter (\<lambda>I. I \<in> set ds) pending) + mset (filter (\<lambda>I. I \<notin> set ds) pending) = mset pending"
    by (induction pending) auto
  ultimately show ?thesis by simp
qed

lemma for_each_invariant:
  assumes step: "\<And>i t t'. body i t = Inr t' \<Longrightarrow> P t \<Longrightarrow> P t'"
  shows "for_each is body s = Inr s' \<Longrightarrow> P s \<Longrightarrow> P s'"
proof (induction "is" arbitrary: s)
  case Nil
  then show ?case by simp
next
  case (Cons i "is")
  then show ?case by (auto simp: seq_def split: sum.splits dest: step)
qed

lemma new_conserved:
  assumes "dram_controller_c_new k u = Inr s"
  shows "buffers_conserved s"
proof -
  have inj: "inj_on (\<lambda>jj. ii * n + jj) A" for ii n :: nat and A
    by (simp add: inj_on_def)
  from assms show ?thesis
    by (auto simp: dram_controller_c_new_def buffers_conserved_def bank_entries_def distinct_map inj
        split: if_splits)
qed

lemma collect_prefetch_nonnull:
  "collect_prefetch s buf = Inr ds \<Longrightarrow> \<forall>I \<in> set buf. m_req (drb_heap s I) \<noteq> None"
  by (induction buf arbitrary: ds) (auto simp: seq_def split: option.splits sum.splits)

lemma flush_prefetch_conserved:
  assumes run: "flush_prefetch s bid = Inr s'" and inv: "buffers_conserved s"
  shows "buffers_conserved s'"
proof -
  from run obtain ds where "collect_prefetch s (m_buffer s bid) = Inr ds"
    by (auto simp: flush_prefetch_def seq_def split: sum.splits)
  then have nn: "\<forall>I \<in> set (m_buffer s bid). m_req (drb_heap s I) \<noteq> None"
    by (rule collect_prefetch_nonnull)
  from run flush_prefetch_eq [OF nn] have s': "s' = flushed s bid"
    by (simp add: flushed_def)
  show ?thesis
  proof (rule buffers_conserved_step [OF inv, where ii = bid])
    show "m_num_bank s' = m_num_bank s" "KNOB_DRAM_BUFFER_SIZE s' = KNOB_DRAM_BUFFER_SIZE s"
      by (simp_all add: s' flushed_def)
    show "bank_entries s' jj = bank_entries s jj" if "jj \<noteq> bid" for jj
      using that by (simp add: s' flushed_def bank_entries_def)
    show "mset (bank_entries s' bid) = mset (bank_entries s bid)"
      by (simp add: s' flushed_def bank_entries_def)
  qed
qed

lemma insert_req_in_drb_lists:
  assumes "insert_req_in_drb s mem_req bid rid cid = Inr s'"
  shows "m_num_bank s' = m_num_bank s \<and> KNOB_DRAM_BUFFER_SIZE s' = KNOB_DRAM_BUFFER_SIZE s \<and>
         m_current_list s' = m_current_list s \<and>
         (\<exists>e rest. m_buffer_free_list s bid = e # rest \<and>
            m_buffer_free_list s' = (m_buffer_free_list s)(bid := rest) \<and>
            m_buffer s' = (m_buffer s)(bid := m_buffer s bid @ [e]))"
  using assms
  by (auto simp: insert_req_in_drb_def drb_set_def seq_def Let_def split: list.splits if_splits)

lemma insert_req_in_drb_conserved:
  assumes run: "insert_req_in_drb s mem_req bid rid cid = Inr s'" and inv: "buffers_conserved s"
  shows "buffers_conserved s'"
proof -
  from insert_req_in_drb_lists [OF run] obtain e rest where
    l: "m_num_bank s' = m_num_bank s" "KNOB_DRAM_BUFFER_SIZE s' = KNOB_DRAM_BUFFER_SIZE s"
    "m_current_list s' = m_current_list s" "m_buffer_free_list s bid = e # rest"
    "m_buffer_free_list s' = (m_buffer_free_list s)(bid := rest)"
    "m_buffer s' = (m_buffer s)(bid := m_buffer s bid @ [e])" by blast
  show ?thesis
  proof (rule buffers_conserved_step [OF inv, where ii = bid])
    show "bank_entries s' jj = bank_entries s jj" if "jj \<noteq> bid" for jj
      using that by (simp add: l bank_entries_def)
    show "mset (bank_entries s' bid) = mset (bank_entries s bid)"
      by (simp add: l bank_entries_def)
  qed (rule l)+
qed

lemma insert_new_req_conserved:
  assumes run: "insert_new_req s mem_req = Inr (ok, s')" and inv: "buffers_conserved s"
  shows "buffers_conserved s'"
proof -
  obtain bid_xor cid bid0 rid where
    parse: "address_parsing s (rq_addr (req_heap s mem_req)) = (bid_xor, cid, bid0, rid)"
    by (cases "address_parsing s (rq_addr (req_heap s mem_req))") auto
  define bid where "bid = nat (permute_bank s bid0 bid_xor)"
  from run parse obtain s1 where
    s1: "(if m_buffer_free_list s bid = [] then flush_prefetch s bid else Inr s) = Inr s1"
    and rest: "(if m_buffer_free_list s1 bid = [] then Inr (False, s1)
           else seq (insert_req_in_drb s1 mem_req bid rid cid)
                  (\<lambda>s2. Inr (True, s2\<lparr>m_total_req := m_total_req s2 + 1,
                            req_heap := (req_heap s2)(mem_req :=
                               (req_heap s2 mem_req)\<lparr>rq_state := MEM_DRAM_START\<rparr>)\<rparr>))) = Inr (ok, s')"
    by (auto simp: insert_new_req_def bid_def Let_def seq_def split: if_splits sum.splits)
  from s1 inv have inv1: "buffers_conserved s1"
    by (auto split: if_splits intro: flush_prefetch_conserved)
  show ?thesis
  proof (cases "m_buffer_free_list s1 bid = []")
    case True
    with rest inv1 show ?thesis by simp
  next
    case False
    with rest obtain s2 where s2: "insert_req_in_drb s1 mem_req bid rid cid = Inr s2"
      and s': "s' = s2\<lparr>m_total_req := m_total_req s2 + 1,
                            req_heap := (req_heap s2)(mem_req :=
                               (req_heap s2 mem_req)\<lparr>rq_state := MEM_DRAM_START\<rparr>)\<rparr>"
      by (auto simp: seq_def split: sum.splits)
    from insert_req_in_drb_conserved [OF s2 inv1] show ?thesis
      by (simp add: s' buffers_conserved_def bank_entries_def)
  qed
qed

lemma mset_sort_insert: "mset (sort_insert lt x ys) = add_mset x (mset ys)"
  by (induction ys) auto

lemma mset_list_sort: "mset (list_sort lt xs) = mset xs"
  by (induction xs) (simp_all add: list_sort_def mset_sort_insert)

lemma bank_new_conserved:
  assumes run: "bank_new ii s = Inr s'" and inv: "buffers_conserved s"
  shows "buffers_conserved s'"
proof (cases "m_current_list s ii")
  case (Some e)
  with run have "lists_kept s s'"
    by (auto simp: bank_new_def lists_kept_def split: if_splits)
  then show ?thesis using inv by (rule lists_kept_conserved)
next
  case None
  show ?thesis
  proof (cases "m_buffer s ii = []")
    case True
    with None run inv show ?thesis by (simp add: bank_new_def)
  next
    case False
    with None run obtain entry s1 where sch: "schedule s ii = Inr (entry, s1)"
      by (auto simp: bank_new_def seq_def split: sum.splits)
    from schedule_frame [OF sch] obtain buf where
      b: "s1 = s\<lparr>m_buffer := (m_buffer s)(ii := buf)\<rparr>" "buf = entry # tl buf"
      "buf = (case m_policy s of FCFS \<Rightarrow> m_buffer s ii | FRFCFS \<Rightarrow> list_sort (sort_func s) (m_buffer s ii))"
      by blast
    from b(3) have mb: "mset buf = mset (m_buffer s ii)"
      by (cases "m_policy s") (simp_all add: mset_list_sort)
    from None False run sch have s': "m_num_bank s' = m_num_bank s"
      "KNOB_DRAM_BUFFER_SIZE s' = KNOB_DRAM_BUFFER_SIZE s"
      "m_buffer_free_list s' = m_buffer_free_list s"
      "m_current_list s' = (m_current_list s)(ii := Some entry)"
      "m_buffer s' = (m_buffer s)(ii := removeAll entry buf)"
      by (auto simp: bank_new_def seq_def Let_def b(1))
    show ?thesis
    proof (rule buffers_conserved_step [OF inv, where ii = ii])
      show "bank_entries s' jj = bank_entries s jj" if "jj \<noteq> ii" for jj
        using that by (simp add: s' bank_entries_def)
      show "mset (bank_entries s' ii) = mset (bank_entries s ii)" if d: "distinct (bank_entries s ii)"
      proof -
        from d have "distinct (m_buffer s ii)" by (simp add: bank_entries_def)
        with mb have "distinct buf" by (metis mset_eq_imp_distinct_iff)
        then have "removeAll entry buf = tl buf"
          using b(2) by (metis distinct.simps(2) list.sel(3) removeAll.simps(2) removeAll_id)
        then have "add_mset entry (mset (removeAll entry buf)) = mset buf"
          using b(2) by (metis mset.simps(2))
        with mb show ?thesis by (simp add: s' bank_entries_def None)
      qed
    qed (rule s')+
  qed
qed

lemma bank_complete_conserved:
  assumes run: "bank_complete ii s = Inr s'" and inv: "buffers_conserved s"
  shows "buffers_conserved s'"
proof (cases "m_current_list s ii")
  case None
  with run inv show ?thesis by (simp add: bank_complete_def)
next
  case (Some c)
  from bank_complete_effect [OF Some run] obtain temp dn ns where
    "completion_effect ii c s s' temp dn ns" by blast
  then have e: "mset temp \<subseteq># mset (m_buffer s ii)"
    "m_buffer s' = (m_buffer s)(ii := filter (\<lambda>I. I \<notin> set temp) (m_buffer s ii))"
    "m_buffer_free_list s' = (m_buffer_free_list s)
        (ii := m_buffer_free_list s ii @ temp @ (if dn then [c] else []))"
    "m_current_list s' = (if dn then (m_current_list s)(ii := None) else m_current_list s)"
    "m_num_bank s' = m_num_bank s" "KNOB_DRAM_BUFFER_SIZE s' = KNOB_DRAM_BUFFER_SIZE s"
    unfolding completion_effect_def by blast+
  show ?thesis
  proof (rule buffers_conserved_step [OF inv, where ii = ii])
    show "bank_entries s' jj = bank_entries s jj" if "jj \<noteq> ii" for jj
      using that by (simp add: e bank_entries_def)
    show "mset (bank_entries s' ii) = mset (bank_entries s ii)" if d: "distinct (bank_entries s ii)"
    proof -
      from d have "distinct (m_buffer s ii)" by (simp add: bank_entries_def)
      from mset_move_sublist [OF this e(1)]
      have "mset temp + mset (filter (\<lambda>I. I \<notin> set temp) (m_buffer s ii)) = mset (m_buffer s ii)" .
      then show ?thesis
        by (simp add: e(2-4) bank_entries_def Some)
    qed
  qed (rule e)+
qed

lemma cmd_issue_lists: "cmd_issue s bank = Inr s' \<Longrightarrow> lists_kept s s'"
  by (auto simp: cmd_issue_def Let_def lists_kept_def split: option.splits if_splits)

lemma channel_cmd_conserved:
  "channel_cmd ii s = Inr s' \<Longrightarrow> buffers_conserved s \<Longrightarrow> buffers_conserved s'"
  by (auto simp: channel_cmd_def split: option.splits dest: cmd_issue_lists lists_kept_conserved)

lemma data_issue_lists:
  assumes "data_issue s ii bank = Inr s'"
  shows "lists_kept s s'"
proof -
  from assms obtain e r t s2 where
    acq: "acquire_data_bus (s\<lparr>req_heap := (req_heap s)(r := (req_heap s r)\<lparr>rq_state := MEM_DRAM_DATA\<rparr>)\<rparr>)
            ii (m_size (drb_heap s e)) (rq_ptx (req_heap s r)) = Inr (t, s2)"
    and s': "s' = s2\<lparr>m_data_ready := (m_data_ready s2)(bank := t),
                     m_data_avail := (m_data_avail s2)(bank := ULLONG_MAX),
                     drb_heap := (drb_heap s2)(e := (drb_heap s2 e)\<lparr>m_state := DRAM_DATA_WAIT\<rparr>)\<rparr>"
    by (auto simp: data_issue_def Let_def seq_def split: option.splits if_splits sum.splits)
  from acquire_data_bus_frame [OF acq] obtain a d where
    "s2 = s\<lparr>req_heap := (req_heap s)(r := (req_heap s r)\<lparr>rq_state := MEM_DRAM_DATA\<rparr>),
             m_byte_avail := a, m_dbus_ready := d\<rparr>" by auto
  then show ?thesis by (simp add: s' lists_kept_def)
qed

lemma channel_data_lists: "channel_data ii s = Inr s' \<Longrightarrow> lists_kept s s'"
proof (induction ii s rule: channel_data.induct)
  case (1 ii s)
  show ?case
  proof (cases "avail_data_bus s ii")
    case False
    with "1.prems" show ?thesis by (simp add: channel_data.simps [of ii s] lists_kept_refl)
  next
    case True
    show ?thesis
    proof (cases "select_data s ii")
      case None
      with True "1.prems" show ?thesis by (simp add: channel_data.simps [of ii s] lists_kept_refl)
    next
      case (Some bank)
      with True "1.prems" obtain s1 where iss: "data_issue s ii bank = Inr s1"
        and rest: "channel_data ii s1 = Inr s'"
        by (auto simp: channel_data.simps [of ii s] split: sum.splits)
      from "1.IH" [OF True Some iss rest] data_issue_lists [OF iss] show ?thesis
        by (blast intro: lists_kept_trans)
    qed
  qed
qed

lemma channel_data_conserved:
  "channel_data ii s = Inr s' \<Longrightarrow> buffers_conserved s \<Longrightarrow> buffers_conserved s'"
  by (blast dest: channel_data_lists lists_kept_conserved)

lemma channel_schedule_conserved:
  assumes "channel_schedule s = Inr s'" and "buffers_conserved s"
  shows "buffers_conserved s'"
proof -
  from assms(1) obtain s1 where 1: "for_each [0..<m_num_channel s] channel_cmd s = Inr s1"
    and 2: "for_each [0..<m_num_channel s1] channel_data s1 = Inr s'"
    by (auto simp: channel_schedule_def channel_schedule_cmd_def channel_schedule_data_def seq_def
        split: sum.splits)
  have c: "\<And>i t t'. channel_cmd i t = Inr t' \<Longrightarrow> buffers_conserved t \<Longrightarrow> buffers_conserved t'"
    by (rule channel_cmd_conserved)
  have d: "\<And>i t t'. channel_data i t = Inr t' \<Longrightarrow> buffers_conserved t \<Longrightarrow> buffers_conserved t'"
    by (rule channel_data_conserved)
  from c 1 assms(2) have "buffers_conserved s1"
    by (rule for_each_invariant [where P = buffers_conserved and body = channel_cmd])
  with d 2 show ?thesis
    by (rule for_each_invariant [where P = buffers_conserved and body = channel_data])
qed

lemma bank_schedule_new_conserved:
  assumes "bank_schedule_new s = Inr s'" and "buffers_conserved s"
  shows "buffers_conserved s'"
proof -
  have "\<And>i t t'. bank_new i t = Inr t' \<Longrightarrow> buffers_conserved t \<Longrightarrow> buffers_conserved t'"
    by (rule bank_new_conserved)
  then show ?thesis
    using assms(1) [unfolded bank_schedule_new_def] assms(2)
    by (rule for_each_invariant [where P = buffers_conserved and body = bank_new])
qed

lemma bank_schedule_complete_conserved:
  assumes "bank_schedule_complete s = Inr s'" and "buffers_conserved s"
  shows "buffers_conserved s'"
proof -
  have inv: "buffers_conserved (s\<lparr>m_num_completed_in_last_cycle := 0\<rparr>)"
    using assms(2) by (simp add: buffers_conserved_def bank_entries_def)
  have run: "for_each [0..<m_num_bank s] bank_complete (s\<lparr>m_num_completed_in_last_cycle := 0\<rparr>) = Inr s'"
    using assms(1) by (simp add: bank_schedule_complete_def)
  have step: "\<And>i t t'. bank_complete i t = Inr t' \<Longrightarrow> buffers_conserved t \<Longrightarrow> buffers_conserved t'"
    by (rule bank_complete_conserved)
  from step run inv show ?thesis
    by (rule for_each_invariant [where P = buffers_conserved and body = bank_complete])
qed

lemma receive_packet_conserved:
  assumes "receive_packet s = Inr s'" and "buffers_conserved s"
  shows "buffers_conserved s'"
proof (cases "IRIS s \<and> receive_queue s \<noteq> []")
  case False
  with assms show ?thesis by (auto simp: receive_packet_def split: list.splits if_splits)
next
  case True
  with assms(1) obtain ok s1 where ins: "insert_new_req s (hd (receive_queue s)) = Inr (ok, s1)"
    and s': "s' = (if ok then s1\<lparr>receive_queue := tl (receive_queue s1)\<rparr> else s1)"
    by (auto simp: receive_packet_def seq_def split: list.splits sum.splits)
  from insert_new_req_conserved [OF ins assms(2)] show ?thesis
    by (simp add: s' buffers_conserved_def bank_entries_def)
qed

lemma progress_check_lists: "progress_check s = Inr s' \<Longrightarrow> lists_kept s s'"
  by (auto simp: progress_check_def Let_def lists_kept_def split: if_splits sum.splits)

lemma progress_check_conserved:
  "progress_check s = Inr s' \<Longrightarrow> buffers_conserved s \<Longrightarrow> buffers_conserved s'"
  by (blast dest: progress_check_lists lists_kept_conserved)

lemma run_a_cycle_conserved:
  assumes "run_a_cycle s = Inr s'" and "buffers_conserved s"
  shows "buffers_conserved s'"
proof -
  from assms(1) obtain s1 s2 s3 s4 where
    "channel_schedule s = Inr s1" "bank_schedule_complete s1 = Inr s2"
    "bank_schedule_new s2 = Inr s3" "receive_packet s3 = Inr s4" "progress_check s4 = Inr s'"
    by (auto simp: run_a_cycle_def bank_schedule_def seq_def split: sum.splits)
  with assms(2) show ?thesis
    by (blast intro: channel_schedule_conserved bank_schedule_complete_conserved
        bank_schedule_new_conserved receive_packet_conserved progress_check_conserved)
qed

lemma buffers_conserved_count:
  assumes "buffers_conserved s" and "ii < m_num_bank s"
  shows "length (m_buffer_free_list s ii) + length (m_buffer s ii) +
           (case m_current_list s ii of None \<Rightarrow> 0 | Some c \<Rightarrow> 1) = KNOB_DRAM_BUFFER_SIZE s \<and>
         distinct (m_buffer_free_list s ii) \<and> distinct (m_buffer s ii) \<and>
         set (m_buffer_free_list s ii) \<inter> set (m_buffer s ii) = {} \<and>
         (\<forall>c. m_current_list s ii = Some c \<longrightarrow>
              c \<notin> set (m_buffer_free_list s ii) \<and> c \<notin> set (m_buffer s ii))"
proof -
  from assms have d: "distinct (bank_entries s ii)"
    and l: "length (bank_entries s ii) = KNOB_DRAM_BUFFER_SIZE s"
    by (simp_all add: buffers_conserved_def)
  show ?thesis
  proof (cases "m_current_list s ii")
    case None
    with d l show ?thesis by (auto simp: bank_entries_def)
  next
    case (Some c)
    with d l show ?thesis by (auto simp: bank_entries_def)
  qed
qed

text \<open>
  Claim C4.  The constructor leaves every bank with \<^verbatim>\<open>KNOB_DRAM_BUFFER_SIZE\<close> entries,
  each in exactly one of the free list, the pending list and the current slot; ingress
  (\<^verbatim>\<open>insert_new_req\<close>), the prefetch flush, the selection of a new request, completion
  with its merge pass, and a whole tick (\<^verbatim>\<open>run_a_cycle\<close>) keep it so whenever they
  return.  For a bank of a conserved controller the sizes of the free list and the
  pending list, plus one for a current entry, add up to the buffer size, and no entry
  is in two of the three places.
\<close>

theorem buffer_conservation:
  "(dram_controller_c_new k u = Inr sn \<longrightarrow> buffers_conserved sn) \<and>
   (buffers_conserved s \<longrightarrow>
      (insert_new_req s mem_req = Inr (ok, si) \<longrightarrow> buffers_conserved si) \<and>
      (flush_prefetch s bid = Inr sf \<longrightarrow> buffers_conserved sf) \<and>
      (bank_schedule_new s = Inr sb \<longrightarrow> buffers_conserved sb) \<and>
      (bank_schedule_complete s = Inr sc \<longrightarrow> buffers_conserved sc) \<and>
      (run_a_cycle s = Inr st \<longrightarrow> buffers_conserved st) \<and>
      (ii < m_num_bank s \<longrightarrow>
         length (m_buffer_free_list s ii) + length (m_buffer s ii) +
           (case m_current_list s ii of None \<Rightarrow> 0 | Some c \<Rightarrow> 1) = KNOB_DRAM_BUFFER_SIZE s \<and>
         distinct (m_buffer_free_list s ii) \<and> distinct (m_buffer s ii) \<and>
         set (m_buffer_free_list s ii) \<inter> set (m_buffer s ii) = {} \<and>
         (\<forall>c. m_current_list s ii = Some c \<longrightarrow>
              c \<notin> set (m_buffer_free_list s ii) \<and> c \<notin> set (m_buffer s ii))))"
proof -
  have a: "dram_controller_c_new k u = Inr sn \<longrightarrow> buffers_conserved sn"
    using new_conserved by blast
  have b: "buffers_conserved s \<longrightarrow> insert_new_req s mem_req = Inr (ok, si) \<longrightarrow> buffers_conserved si"
    using insert_new_req_conserved by blast
  have c: "buffers_conserved s \<longrightarrow> flush_prefetch s bid = Inr sf \<longrightarrow> buffers_conserved sf"
    using flush_prefetch_conserved by blast
  have d: "buffers_conserved s \<longrightarrow> bank_schedule_new s = Inr sb \<longrightarrow> buffers_conserved sb"
    using bank_schedule_new_conserved by blast
  have e: "buffers_conserved s \<longrightarrow> bank_schedule_complete s = Inr sc \<longrightarrow> buffers_conserved sc"
    using bank_schedule_complete_conserved by blast
  have f: "buffers_conserved s \<longrightarrow> run_a_cycle s = Inr st \<longrightarrow> buffers_conserved st"
    using run_a_cycle_conserved by blast
  note g = buffers_conserved_count [of s ii]
  from a b c d e f g show ?thesis by blast
qed

theorem buffer_conservation_witness:
  "dram_controller_c_new demo_knobs demo_raw = Inr demo \<and> buffers_conserved demo \<and>
   insert_new_req (demo\<lparr>m_simulation_cycle := 5\<rparr>) 0 = Inr (True, demo_queued) \<and>
   buffers_conserved demo_queued \<and>
   bank_schedule_new demo_queued = Inr (demo_selected\<lparr>m_simulation_cycle := 5\<rparr>) \<and>
   buffers_conserved (demo_selected\<lparr>m_simulation_cycle := 5\<rparr>) \<and>
   m_buffer_free_list (demo_selected\<lparr>m_simulation_cycle := 5\<rparr>) 0 = [1, 2, 3] \<and>
   m_buffer (demo_selected\<lparr>m_simulation_cycle := 5\<rparr>) 0 = [] \<and>
   m_current_list (demo_selected\<lparr>m_simulation_cycle := 5\<rparr>) 0 = Some 0 \<and>
   length (m_buffer_free_list (demo_selected\<lparr>m_simulation_cycle := 5\<rparr>) 0) +
     length (m_buffer (demo_selected\<lparr>m_simulation_cycle := 5\<rparr>) 0) +
     (case m_current_list (demo_selected\<lparr>m_simulation_cycle := 5\<rparr>) 0 of None \<Rightarrow> 0 | Some c \<Rightarrow> 1) =
     KNOB_DRAM_BUFFER_SIZE (demo_selected\<lparr>m_simulation_cycle := 5\<rparr>)"
proof -
  let ?t = "demo_selected\<lparr>m_simulation_cycle := 5\<rparr>"
  from buffer_conservation [where k = demo_knobs and u = demo_raw and sn = demo] demo_new
  have 0: "buffers_conserved demo" by blast
  then have 5: "buffers_conserved (demo\<lparr>m_simulation_cycle := 5\<rparr>)"
    by (simp add: buffers_conserved_def bank_entries_def)
  from buffer_conservation [where s = "demo\<lparr>m_simulation_cycle := 5\<rparr>" and mem_req = 0
      and ok = True and si = demo_queued] 5 demo_queued_run
  have 1: "buffers_conserved demo_queued" by blast
  from buffer_conservation [where s = demo_queued and sb = ?t] 1 demo_selected_run
  have 2: "buffers_conserved ?t" by blast
  have n: "(0::nat) < m_num_bank ?t" by (simp add: demo_selected_fields)
  from buffer_conservation [where s = ?t and ii = 0] 2 n
  have 3: "length (m_buffer_free_list ?t 0) + length (m_buffer ?t 0) +
     (case m_current_list ?t 0 of None \<Rightarrow> 0 | Some c \<Rightarrow> 1) = KNOB_DRAM_BUFFER_SIZE ?t" by blast
  have 4: "m_buffer_free_list ?t 0 = [1, 2, 3]" "m_buffer ?t 0 = []" "m_current_list ?t 0 = Some 0"
    by (simp_all add: demo_selected_def demo_queued_def demo_fields)
  from demo_new 0 demo_queued_run 1 demo_selected_run 2 3 4 show ?thesis by blast
qed

subsection \<open>Starvation watchdog\<close>








































end
